theory Spec2Isabelle
  imports Main
begin

section \<open>Source text and the prefix patterns of the worker\<close>

text \<open>
  The worker file (\<^verbatim>\<open>thread.ts\<close>) receives the text of the decorated method and turns it
  into a function expression before evaluating it. Source text is a list of code units;
  \<^typ>\<open>char\<close> has 256 values, so the model covers the code units 0 to 255 (Latin-1). In
  that range the white space of \<^verbatim>\<open>String.prototype.trim\<close> and of the pattern class
  \<^verbatim>\<open>\s\<close> is TAB, LF, VT, FF, CR, SPACE and NBSP.
\<close>

definition is_space :: "char \<Rightarrow> bool" where
  "is_space c = (c \<in> set [CHR 0x09, CHR 0x0A, CHR 0x0B, CHR 0x0C, CHR 0x0D, CHR 0x20, CHR 0xA0])"

definition in_range :: "char \<Rightarrow> char \<Rightarrow> char \<Rightarrow> bool" where
  "in_range lo hi c = ((of_char lo :: nat) \<le> of_char c \<and> (of_char c :: nat) \<le> of_char hi)"

text \<open>The class \<^verbatim>\<open>\w\<close> is \<^verbatim>\<open>[A-Za-z0-9_]\<close>; the class \<^verbatim>\<open>[a-zA-Z_$]\<close> starts an identifier.\<close>

definition is_word :: "char \<Rightarrow> bool" where
  "is_word c = (in_range CHR ''A'' CHR ''Z'' c \<or> in_range CHR ''a'' CHR ''z'' c
                \<or> in_range CHR ''0'' CHR ''9'' c \<or> c = CHR ''_'')"

definition is_ident_start :: "char \<Rightarrow> bool" where
  "is_ident_start c = (in_range CHR ''a'' CHR ''z'' c \<or> in_range CHR ''A'' CHR ''Z'' c
                       \<or> c = CHR ''_'' \<or> c = CHR ''$'')"

text \<open>
  Patterns are kept as syntax trees, so that the two patterns of the source can be read
  off their definitions: \<open>RClass\<close> is a character class, \<open>RSeq\<close> concatenation, \<open>RAlt\<close>
  the bar, \<open>RStar\<close> the star; the option \<^verbatim>\<open>(r)?\<close>, the plus \<^verbatim>\<open>r+\<close> and a literal
  word are derived forms.
\<close>

datatype rx = RNone | REps | RClass "char \<Rightarrow> bool" | RAlt rx rx | RSeq rx rx | RStar rx

definition RChar :: "char \<Rightarrow> rx" where
  "RChar c = RClass (\<lambda>d. d = c)"

definition ROpt :: "rx \<Rightarrow> rx" where
  "ROpt r = RAlt r REps"

definition RPlus :: "rx \<Rightarrow> rx" where
  "RPlus r = RSeq r (RStar r)"

fun RLit :: "string \<Rightarrow> rx" where
  "RLit [] = REps"
| "RLit (c # cs) = RSeq (RChar c) (RLit cs)"

fun nullable :: "rx \<Rightarrow> bool" where
  "nullable RNone = False"
| "nullable REps = True"
| "nullable (RClass P) = False"
| "nullable (RAlt r s) = (nullable r \<or> nullable s)"
| "nullable (RSeq r s) = (nullable r \<and> nullable s)"
| "nullable (RStar r) = True"

fun deriv :: "char \<Rightarrow> rx \<Rightarrow> rx" where
  "deriv c RNone = RNone"
| "deriv c REps = RNone"
| "deriv c (RClass P) = (if P c then REps else RNone)"
| "deriv c (RAlt r s) = RAlt (deriv c r) (deriv c s)"
| "deriv c (RSeq r s) =
     (if nullable r then RAlt (RSeq (deriv c r) s) (deriv c s) else RSeq (deriv c r) s)"
| "deriv c (RStar r) = RSeq (deriv c r) (RStar r)"

text \<open>
  \<^verbatim>\<open>/^r/.test(s)\<close>: the pattern is anchored at the start only, so the test succeeds when
  some prefix of \<open>s\<close> matches \<open>r\<close>.
\<close>

fun rx_test :: "rx \<Rightarrow> string \<Rightarrow> bool" where
  "rx_test r [] = nullable r"
| "rx_test r (c # cs) = (nullable r \<or> rx_test (deriv c r) cs)"

text \<open>The words a pattern matches, which the lemmas about \<open>rx_test\<close> refer to.\<close>

inductive_set star :: "string set \<Rightarrow> string set" for L :: "string set" where
  star_nil: "[] \<in> star L"
| star_app: "u \<in> L \<Longrightarrow> v \<in> star L \<Longrightarrow> u @ v \<in> star L"

fun lang :: "rx \<Rightarrow> string set" where
  "lang RNone = {}"
| "lang REps = {[]}"
| "lang (RClass P) = {[c] | c. P c}"
| "lang (RAlt r s) = lang r \<union> lang s"
| "lang (RSeq r s) = {u @ v | u v. u \<in> lang r \<and> v \<in> lang s}"
| "lang (RStar r) = star (lang r)"

text \<open>\<^verbatim>\<open>/^(async\s+)?function[\s(]/\<close>\<close>

definition rx_function :: rx where
  "rx_function =
     RSeq (ROpt (RSeq (RLit ''async'') (RPlus (RClass is_space))))
          (RSeq (RLit ''function'') (RClass (\<lambda>c. is_space c \<or> c = CHR ''('')))"

text \<open>\<^verbatim>\<open>/^(\(|[a-zA-Z_$]\w*\s*=>)/\<close>\<close>

definition rx_arrow :: rx where
  "rx_arrow =
     RAlt (RChar CHR ''('')
          (RSeq (RClass is_ident_start)
             (RSeq (RStar (RClass is_word)) (RSeq (RStar (RClass is_space)) (RLit ''=>''))))"

definition trim :: "string \<Rightarrow> string" where
  "trim s = rev (dropWhile is_space (rev (dropWhile is_space s)))"

definition startsWith :: "string \<Rightarrow> string \<Rightarrow> bool" where
  "startsWith s p = (take (length p) s = p)"

text \<open>\<^verbatim>\<open>s.indexOf(c)\<close>; the result \<^verbatim>\<open>-1\<close> of the source is \<open>None\<close>.\<close>

fun indexOf :: "string \<Rightarrow> char \<Rightarrow> nat option" where
  "indexOf [] c = None"
| "indexOf (x # xs) c = (if x = c then Some 0 else map_option Suc (indexOf xs c))"

definition slice :: "string \<Rightarrow> nat \<Rightarrow> string" where
  "slice s n = drop n s"

definition toFunctionExpression :: "string \<Rightarrow> string" where
  "toFunctionExpression code =
     (let trimmed = trim code in
      if rx_test rx_function trimmed \<or> rx_test rx_arrow trimmed then code
      else
        let isAsync = startsWith trimmed ''async '';
            paramsStart = indexOf trimmed CHR ''(''
        in case paramsStart of
             None \<Rightarrow> code
           | Some i \<Rightarrow>
               let fnBody = slice trimmed i
               in if isAsync then ''async function'' @ fnBody else ''function'' @ fnBody)"

text \<open>
  The shape of a class method's text that the third branch is written for: an identifier
  (\<^verbatim>\<open>[A-Za-z_$][A-Za-z0-9_$]*\<close>) as the method's name.
\<close>

definition is_ident_part :: "char \<Rightarrow> bool" where
  "is_ident_part c = (is_word c \<or> c = CHR ''$'')"

definition is_identifier :: "string \<Rightarrow> bool" where
  "is_identifier s = (case s of [] \<Rightarrow> False | c # cs \<Rightarrow> is_ident_start c \<and> list_all is_ident_part cs)"

section \<open>Values, errors and the host\<close>

text \<open>
  Arguments and results cross the channel by structured clone; \<open>jsval\<close> is the domain of
  values that can, which is the domain the decorator is documented for (\<^emph>\<open>all arguments
  must be serializable\<close>). A value that cannot be cloned makes \<^verbatim>\<open>postMessage\<close> throw and
  is outside the model. Numbers are kept to the integers: the two files compute with none
  of the values they pass on, and print only the timeout and the exit code.
\<close>

datatype jsval =
  JUndefined | JNull | JBool bool | JNum int | JStr string
  | JArr "jsval list" | JObj "(string \<times> jsval) list"

record js_error =
  err_name :: string
  err_message :: string
  err_stack :: string
  err_context :: "string option"

text \<open>The message of the worker: \<^verbatim>\<open>{ error?: Error; success?: unknown }\<close>.\<close>

record error_fields =
  fld_message :: string
  fld_stack :: string
  fld_name :: string

record outcome =
  error :: "error_fields option"
  success :: jsval

text \<open>
  A callable can throw any value: an \<^verbatim>\<open>Error\<close> object, with its name, message and
  stack, or a plain value (\<^verbatim>\<open>throw null\<close>, \<^verbatim>\<open>throw 'text'\<close>, a rejected promise
  with no reason).
\<close>

datatype thrown = ErrorObject js_error | Value jsval

text \<open>
  What awaiting the reconstructed callable comes to: the three lines
  \<^verbatim>\<open>new Function('require', `return ${executableFn}`)(require)\<close>,
  \<^verbatim>\<open>fn.apply({}, args)\<close> and \<^verbatim>\<open>await\<close> either produce a value, or throw (the
  text does not parse, the callable throws or rejects), or never settle.
\<close>

datatype completion = Returned jsval | Threw thrown | Unsettled

text \<open>
  The host is everything the two files call and do not define: the interpreter behind
  \<^verbatim>\<open>new Function\<close> (given the text, the \<^verbatim>\<open>this\<close> binding and the arguments), the
  stack trace that \<^verbatim>\<open>new Error(message)\<close> records, \<^verbatim>\<open>red\<close> of colorette, and the
  digits the language prints for a number beyond the safe integers.
\<close>

record host =
  invoke :: "string \<Rightarrow> jsval \<Rightarrow> jsval list \<Rightarrow> completion"
  captureStack :: "string \<Rightarrow> string"
  red :: "string \<Rightarrow> string"
  numberToString :: "int \<Rightarrow> string"

definition new_Error :: "host \<Rightarrow> string \<Rightarrow> js_error" where
  "new_Error h m =
     \<lparr>err_name = ''Error'', err_message = m, err_stack = captureStack h m, err_context = None\<rparr>"

text \<open>
  A number in a template literal or a string concatenation. A safe integer (one of
  magnitude up to \<open>2\<^sup>5\<^sup>3 - 1\<close>, \<^verbatim>\<open>Number.isSafeInteger\<close>) prints as its decimal
  numeral. Beyond that range a number prints in the shortest digits that read back as the
  same number, and from \<open>10\<^sup>2\<^sup>1\<close> on in exponent notation (\<^verbatim>\<open>1e+21\<close>); the model
  leaves those digits to the host and says nothing about them.
\<close>

fun digits :: "nat \<Rightarrow> string" where
  "digits n =
     (if n < 10 then [''0123456789'' ! n]
      else digits (n div 10) @ [''0123456789'' ! (n mod 10)])"

definition decimal :: "int \<Rightarrow> string" where
  "decimal n = (if n < 0 then CHR ''-'' # digits (nat (- n)) else digits (nat n))"

definition is_safe_integer :: "int \<Rightarrow> bool" where
  "is_safe_integer n = (\<bar>n\<bar> \<le> 2 ^ 53 - 1)"

definition Number_toString :: "host \<Rightarrow> int \<Rightarrow> string" where
  "Number_toString h n = (if is_safe_integer n then decimal n else numberToString h n)"

section \<open>The worker: \<^verbatim>\<open>parentPort.on('message', ...)\<close>\<close>

text \<open>
  The message the handler posts: \<^verbatim>\<open>{ success: result }\<close>, or
  \<^verbatim>\<open>{ error: { message, stack, name } }\<close> with the three values the catch block read
  from the caught value.
\<close>

datatype reply = Success jsval | Failure jsval jsval jsval

text \<open>
  The catch block reads \<^verbatim>\<open>error.message\<close>, \<^verbatim>\<open>error.stack\<close> and \<^verbatim>\<open>error.name\<close> of
  whatever was caught. An \<^verbatim>\<open>Error\<close> object has the three as strings; a plain object has
  the properties it has; a string, a number, a boolean or an array has none of them, and
  the read gives \<^verbatim>\<open>undefined\<close>; of \<^verbatim>\<open>null\<close> and \<^verbatim>\<open>undefined\<close> the read itself throws
  a \<^verbatim>\<open>TypeError\<close>, which is \<open>None\<close> here.
\<close>

definition property :: "(string \<times> jsval) list \<Rightarrow> string \<Rightarrow> jsval" where
  "property kvs k = (case map_of kvs k of None \<Rightarrow> JUndefined | Some v \<Rightarrow> v)"

fun fields_of :: "thrown \<Rightarrow> (jsval \<times> jsval \<times> jsval) option" where
  "fields_of (ErrorObject e) = Some (JStr (err_message e), JStr (err_stack e), JStr (err_name e))"
| "fields_of (Value JNull) = None"
| "fields_of (Value JUndefined) = None"
| "fields_of (Value (JObj kvs)) =
     Some (property kvs ''message'', property kvs ''stack'', property kvs ''name'')"
| "fields_of (Value v) = Some (JUndefined, JUndefined, JUndefined)"

text \<open>
  One run of the handler on a task \<^verbatim>\<open>[fnCode, args]\<close>: it posts a message; or the catch
  block itself throws, the promise of the handler is rejected and nothing is posted
  (\<open>Failed\<close>); or the awaited callable never settles and nothing is posted (\<open>Waiting\<close>).
\<close>

datatype handled = Posted reply | Failed | Waiting

fun workerHandler :: "host \<Rightarrow> string \<times> jsval list \<Rightarrow> handled" where
  "workerHandler h (fnCode, args) =
     (let executableFn = toFunctionExpression fnCode
      in case invoke h executableFn (JObj []) args of
           Returned result \<Rightarrow> Posted (Success result)
         | Threw e \<Rightarrow>
             (case fields_of e of
                Some (message, stack, name) \<Rightarrow> Posted (Failure message stack name)
              | None \<Rightarrow> Failed)
         | Unsettled \<Rightarrow> Waiting)"

text \<open>
  The handler is registered with \<^verbatim>\<open>on\<close>, so it runs for every message the port
  delivers: one entry per task received.
\<close>

definition worker :: "host \<Rightarrow> (string \<times> jsval list) list \<Rightarrow> handled list" where
  "worker h tasks = map (workerHandler h) tasks"

definition emitted :: "handled list \<Rightarrow> reply list" where
  "emitted rs = concat (map (\<lambda>r. case r of Posted m \<Rightarrow> [m] | _ \<Rightarrow> []) rs)"


section \<open>The dispatcher: \<^verbatim>\<open>RunInNewThread\<close>\<close>

text \<open>
  What the decorator closes over: its \<^verbatim>\<open>timeout\<close> argument (\<open>None\<close> when absent),
  \<^verbatim>\<open>target.constructor.name\<close>, \<^verbatim>\<open>String(propertyKey)\<close> and
  \<^verbatim>\<open>originalMethod.toString()\<close>.
\<close>

record decoration =
  timeout :: "int option"
  className :: string
  methodName :: string
  fnCode :: string

text \<open>Everything one call does that can be seen from outside it, in order.\<close>

datatype action =
  NewWorker
  | PostMessage string "jsval list"
  | SetTimeout "int option"
  | ClearTimeout
  | Terminate
  | Resolve jsval
  | Reject js_error
  | ConsoleError string string
  | Unhandled js_error

datatype timer = Timeout "int option"

text \<open>
  The state of one call: the two variables of the promise executor, \<^verbatim>\<open>timeoutId\<close> and
  \<^verbatim>\<open>isResolved\<close>; what the host keeps for it (whether the timer is still armed, and
  which of the three \<^verbatim>\<open>once\<close> listeners are still registered); and the actions so far.
\<close>

record call =
  timeoutId :: "timer option"
  isResolved :: bool
  timerArmed :: bool
  onMessage :: bool
  onError :: bool
  onExit :: bool
  actions :: "action list"

definition emit :: "action \<Rightarrow> call \<Rightarrow> call" where
  "emit a st = st\<lparr>actions := actions st @ [a]\<rparr>"

definition cleanup :: "call \<Rightarrow> call" where
  "cleanup st =
     (let st1 = (if timeoutId st \<noteq> None
                 then emit ClearTimeout (st\<lparr>timeoutId := None, timerArmed := False\<rparr>)
                 else st)
      in emit Terminate st1)"

definition resolveOnce :: "jsval \<Rightarrow> call \<Rightarrow> call" where
  "resolveOnce v st =
     (if \<not> isResolved st then emit (Resolve v) (cleanup (st\<lparr>isResolved := True\<rparr>)) else st)"

definition rejectOnce :: "js_error \<Rightarrow> call \<Rightarrow> call" where
  "rejectOnce e st =
     (if \<not> isResolved st then emit (Reject e) (cleanup (st\<lparr>isResolved := True\<rparr>)) else st)"

text \<open>\<^verbatim>\<open>if (timeout)\<close>: an absent timeout and the number 0 are falsy.\<close>

definition truthy :: "int option \<Rightarrow> bool" where
  "truthy t = (case t of None \<Rightarrow> False | Some n \<Rightarrow> n \<noteq> 0)"

text \<open>\<^verbatim>\<open>${timeout}\<close>, also for the timeout that is absent.\<close>

definition template :: "host \<Rightarrow> int option \<Rightarrow> string" where
  "template h t = (case t of None \<Rightarrow> ''undefined'' | Some n \<Rightarrow> Number_toString h n)"

definition setTimeout :: "int option \<Rightarrow> call \<Rightarrow> call" where
  "setTimeout ms st = emit (SetTimeout ms) (st\<lparr>timeoutId := Some (Timeout ms), timerArmed := True\<rparr>)"

text \<open>
  The executor of the promise, up to its return: the worker is created, the task posted,
  the timer armed when the timeout is truthy, the three listeners registered. The wrapper
  is called on an instance (\<open>this\<close>) with the arguments of the call.
\<close>

definition RunInNewThread :: "decoration \<Rightarrow> 'this \<Rightarrow> jsval list \<Rightarrow> call" where
  "RunInNewThread d this args =
     (let st0 = \<lparr>timeoutId = None, isResolved = False, timerArmed = False,
                 onMessage = False, onError = False, onExit = False,
                 actions = [NewWorker, PostMessage (fnCode d) args]\<rparr>;
          st1 = (if truthy (timeout d) then setTimeout (timeout d) st0 else st0)
      in st1\<lparr>onMessage := True, onError := True, onExit := True\<rparr>)"

definition timeoutCallback :: "host \<Rightarrow> decoration \<Rightarrow> call \<Rightarrow> call" where
  "timeoutCallback h d st =
     (let error = new_Error h (''Worker execution timed out after '' @ template h (timeout d) @ '' ms'')
      in rejectOnce (error\<lparr>err_context := Some (className d @ ''/'' @ methodName d)\<rparr>) st)"

definition messageHandler :: "host \<Rightarrow> outcome \<Rightarrow> call \<Rightarrow> call" where
  "messageHandler h v st =
     (case error v of
        Some e \<Rightarrow>
          rejectOnce ((new_Error h (fld_message e))\<lparr>err_stack := fld_stack e, err_name := fld_name e\<rparr>) st
      | None \<Rightarrow> resolveOnce (success v) st)"

definition errorHandler :: "host \<Rightarrow> js_error \<Rightarrow> call \<Rightarrow> call" where
  "errorHandler h err st =
     (if err_name err = ''ReferenceError''
      then rejectOnce (new_Error h (''Reference error in worker: '' @ err_message err))
             (emit (ConsoleError (red h ''Worker reference error: '') (err_message err)) st)
      else rejectOnce err st)"

definition exitHandler :: "host \<Rightarrow> int \<Rightarrow> call \<Rightarrow> call" where
  "exitHandler h code st =
     (if code \<noteq> 0 \<and> \<not> isResolved st
      then rejectOnce (new_Error h (''Worker stopped with exit code '' @ Number_toString h code)) st
      else st)"

text \<open>
  What can happen to a call after the executor has returned: the worker's port delivers a
  message, the worker reports an error, the worker exits with a code, the timer runs out.
  The host runs a \<^verbatim>\<open>once\<close> listener for the first event of its kind and removes it; it
  runs the timer's callback only while the timer is armed; an \<^verbatim>\<open>'error'\<close> event that
  finds no listener is thrown by the emitter.
\<close>

datatype event = Message outcome | WorkerError js_error | Exit int | Deadline

fun deliver :: "host \<Rightarrow> decoration \<Rightarrow> call \<Rightarrow> event \<Rightarrow> call" where
  "deliver h d st (Message v) =
     (if onMessage st then messageHandler h v (st\<lparr>onMessage := False\<rparr>) else st)"
| "deliver h d st (WorkerError e) =
     (if onError st then errorHandler h e (st\<lparr>onError := False\<rparr>) else emit (Unhandled e) st)"
| "deliver h d st (Exit code) =
     (if onExit st then exitHandler h code (st\<lparr>onExit := False\<rparr>) else st)"
| "deliver h d st Deadline =
     (if timerArmed st then timeoutCallback h d (st\<lparr>timerArmed := False\<rparr>) else st)"

definition run :: "host \<Rightarrow> decoration \<Rightarrow> call \<Rightarrow> event list \<Rightarrow> call" where
  "run h d st evs = foldl (deliver h d) st evs"

fun is_settlement :: "action \<Rightarrow> bool" where
  "is_settlement (Resolve v) = True"
| "is_settlement (Reject e) = True"
| "is_settlement a = False"

definition settlements :: "call \<Rightarrow> action list" where
  "settlements st = filter is_settlement (actions st)"

definition posted :: "call \<Rightarrow> (string \<times> jsval list) list" where
  "posted st = concat (map (\<lambda>a. case a of PostMessage c xs \<Rightarrow> [(c, xs)] | _ \<Rightarrow> []) (actions st))"

text \<open>
  The promise of the call: pending until the first call of \<^verbatim>\<open>resolve\<close> or
  \<^verbatim>\<open>reject\<close>, which decides it (\<open>settlements\<close> holds no other action, so the last
  case below is never taken).
\<close>

datatype promise = Pending | Fulfilled jsval | Rejected js_error

definition promise_of :: "call \<Rightarrow> promise" where
  "promise_of st =
     (case settlements st of
        [] \<Rightarrow> Pending
      | Resolve v # _ \<Rightarrow> Fulfilled v
      | Reject e # _ \<Rightarrow> Rejected e
      | _ # _ \<Rightarrow> Pending)"

text \<open>What \<^verbatim>\<open>cleanup\<close> does in a call decorated with \<open>d\<close> that has not settled yet.\<close>

definition cleanup_actions :: "decoration \<Rightarrow> action list" where
  "cleanup_actions d = (if truthy (timeout d) then [ClearTimeout] else []) @ [Terminate]"

text \<open>The two phases of a call, as the states reached from \<open>RunInNewThread\<close> have them.\<close>

definition pending :: "decoration \<Rightarrow> call \<Rightarrow> bool" where
  "pending d st =
     (\<not> isResolved st \<and> settlements st = []
      \<and> count_list (actions st) Terminate = 0
      \<and> count_list (actions st) ClearTimeout = 0
      \<and> timerArmed st = truthy (timeout d)
      \<and> (timeoutId st \<noteq> None) = truthy (timeout d))"

definition settled :: "decoration \<Rightarrow> call \<Rightarrow> bool" where
  "settled d st =
     (isResolved st \<and> length (settlements st) = 1
      \<and> count_list (actions st) Terminate = 1
      \<and> count_list (actions st) ClearTimeout = (if truthy (timeout d) then 1 else 0)
      \<and> \<not> timerArmed st
      \<and> timeoutId st = None)"

text \<open>A call for which no timer was ever created.\<close>

definition timerless :: "call \<Rightarrow> bool" where
  "timerless st = (\<not> timerArmed st \<and> timeoutId st = None \<and> (\<forall>ms. SetTimeout ms \<notin> set (actions st)))"

section \<open>Concrete inputs\<close>

text \<open>
  A host whose interpreter knows four texts: the sum of two numbers, a loop that never
  ends, a callable that throws \<^verbatim>\<open>null\<close>, and (for any other text) a syntax error.
\<close>

definition test_host :: host where
  "test_host =
     \<lparr>invoke = (\<lambda>text this args.
         if text = ''function(a, b) { return a + b }''
         then (case args of [JNum a, JNum b] \<Rightarrow> Returned (JNum (a + b)) | _ \<Rightarrow> Returned JUndefined)
         else if text = ''function() { while (true) {} }'' then Unsettled
         else if text = ''function() { throw null }'' then Threw (Value JNull)
         else Threw (ErrorObject
                \<lparr>err_name = ''SyntaxError'', err_message = ''Unexpected token'',
                 err_stack = ''SyntaxError: Unexpected token'', err_context = None\<rparr>)),
      captureStack = (\<lambda>m. ''Error: '' @ m),
      red = (\<lambda>s. s),
      numberToString = (\<lambda>n. ''1e+21'')\<rparr>"

text \<open>The decoration of the timeout test: \<^verbatim>\<open>@RunInNewThread(100)\<close> on a slow method.\<close>

definition test_decoration :: decoration where
  "test_decoration =
     \<lparr>timeout = Some 100, className = ''TestService'', methodName = ''slowMethod'',
      fnCode = ''async slowMethod() { await delay(500) }''\<rparr>"

section \<open>What the patterns match\<close>

lemma nullable_lang: "nullable r \<longleftrightarrow> [] \<in> lang r"
  by (induction r) (auto intro: star.star_nil)

lemma star_cons_split:
  assumes "x \<in> star L" and "x = c # w"
  shows "\<exists>u v. w = u @ v \<and> c # u \<in> L \<and> v \<in> star L"
  using assms
proof (induction arbitrary: w rule: star.induct)
  case star_nil
  then show ?case by simp
next
  case (star_app u v)
  show ?case
  proof (cases u)
    case Nil
    with star_app show ?thesis by simp
  next
    case (Cons a u')
    with star_app have "w = u' @ v" and "c # u' \<in> L" by auto
    with star_app.hyps(2) show ?thesis by blast
  qed
qed

lemma lang_seqI: "u \<in> lang r \<Longrightarrow> v \<in> lang s \<Longrightarrow> u @ v \<in> lang (RSeq r s)"
  by auto

lemma deriv_lang: "w \<in> lang (deriv c r) \<longleftrightarrow> c # w \<in> lang r"
proof (induction r arbitrary: w)
  case (RSeq r s)
  show ?case
  proof
    assume "w \<in> lang (deriv c (RSeq r s))"
    then consider (left) u v where "w = u @ v" "u \<in> lang (deriv c r)" "v \<in> lang s"
      | (right) "nullable r" "w \<in> lang (deriv c s)"
      by (auto split: if_splits)
    then show "c # w \<in> lang (RSeq r s)"
    proof cases
      case left
      then have "c # u \<in> lang r" using RSeq.IH(1) by simp
      from lang_seqI[OF this left(3)] show ?thesis using left(1) by simp
    next
      case right
      then have "[] \<in> lang r" "c # w \<in> lang s" using RSeq.IH(2) nullable_lang by auto
      from lang_seqI[OF this] show ?thesis by simp
    qed
  next
    assume "c # w \<in> lang (RSeq r s)"
    then obtain u v where uv: "c # w = u @ v" "u \<in> lang r" "v \<in> lang s" by auto
    show "w \<in> lang (deriv c (RSeq r s))"
    proof (cases u)
      case Nil
      with uv have "nullable r" "w \<in> lang (deriv c s)" using RSeq.IH(2) nullable_lang by auto
      then show ?thesis by simp
    next
      case (Cons a u')
      with uv have "u' \<in> lang (deriv c r)" "w = u' @ v" using RSeq.IH(1) by auto
      then show ?thesis using uv(3) by auto
    qed
  qed
next
  case (RStar r)
  show ?case
  proof
    assume "w \<in> lang (deriv c (RStar r))"
    then obtain u v where "w = u @ v" "u \<in> lang (deriv c r)" "v \<in> star (lang r)" by auto
    then have "(c # u) @ v \<in> star (lang r)" using RStar.IH by (intro star.star_app) auto
    then show "c # w \<in> lang (RStar r)" using \<open>w = u @ v\<close> by simp
  next
    assume "c # w \<in> lang (RStar r)"
    then have "c # w \<in> star (lang r)" by simp
    from star_cons_split[OF this refl]
    obtain u v where "w = u @ v" "c # u \<in> lang r" "v \<in> star (lang r)" by blast
    then show "w \<in> lang (deriv c (RStar r))" using RStar.IH by auto
  qed
qed auto

lemma rx_test_lang: "rx_test r s \<longleftrightarrow> (\<exists>u v. s = u @ v \<and> u \<in> lang r)"
proof (induction s arbitrary: r)
  case Nil
  then show ?case by (simp add: nullable_lang)
next
  case (Cons c cs)
  show ?case
  proof
    assume "rx_test r (c # cs)"
    then consider "nullable r" | "rx_test (deriv c r) cs" by auto
    then show "\<exists>u v. c # cs = u @ v \<and> u \<in> lang r"
    proof cases
      case 1
      then have "c # cs = [] @ (c # cs) \<and> [] \<in> lang r" by (simp add: nullable_lang)
      then show ?thesis by blast
    next
      case 2
      then obtain u v where "cs = u @ v" "u \<in> lang (deriv c r)" using Cons.IH by blast
      then have "c # cs = (c # u) @ v \<and> c # u \<in> lang r" by (simp add: deriv_lang)
      then show ?thesis by blast
    qed
  next
    assume "\<exists>u v. c # cs = u @ v \<and> u \<in> lang r"
    then obtain u v where uv: "c # cs = u @ v" "u \<in> lang r" by blast
    show "rx_test r (c # cs)"
    proof (cases u)
      case Nil
      with uv have "nullable r" by (simp add: nullable_lang)
      then show ?thesis by simp
    next
      case (Cons a u')
      with uv have "cs = u' @ v" "u' \<in> lang (deriv c r)" by (auto simp: deriv_lang)
      then have "rx_test (deriv c r) cs" using Cons.IH by blast
      then show ?thesis by simp
    qed
  qed
qed

lemma lang_RLit: "lang (RLit s) = {s}"
  by (induction s) (auto simp: RChar_def)

lemma star_class: "star {[c] | c. P c} = {w. \<forall>c \<in> set w. P c}"
proof (intro set_eqI iffI)
  fix w assume "w \<in> star {[c] | c. P c}"
  then show "w \<in> {w. \<forall>c \<in> set w. P c}" by (induction rule: star.induct) auto
next
  fix w assume "w \<in> {w. \<forall>c \<in> set w. P c}"
  then show "w \<in> star {[c] | c. P c}"
  proof (induction w)
    case Nil
    then show ?case by (simp add: star.star_nil)
  next
    case (Cons a w)
    then have "[a] \<in> {[c] | c. P c}" "w \<in> star {[c] | c. P c}" by auto
    then have "[a] @ w \<in> star {[c] | c. P c}" by (rule star.star_app)
    then show ?case by simp
  qed
qed

lemma rx_test_alt: "rx_test (RAlt a b) s = (rx_test a s \<or> rx_test b s)"
  by (auto simp: rx_test_lang)

lemma rx_test_seq: "rx_test (RSeq a b) s = (\<exists>u t. s = u @ t \<and> u \<in> lang a \<and> rx_test b t)"
proof
  assume "rx_test (RSeq a b) s"
  then obtain u v where "s = u @ v" "u \<in> lang (RSeq a b)" by (auto simp: rx_test_lang)
  then obtain u1 u2 where "s = u1 @ (u2 @ v)" "u1 \<in> lang a" "u2 \<in> lang b" by auto
  then show "\<exists>u t. s = u @ t \<and> u \<in> lang a \<and> rx_test b t" unfolding rx_test_lang by blast
next
  assume "\<exists>u t. s = u @ t \<and> u \<in> lang a \<and> rx_test b t"
  then obtain u u2 v where "s = u @ u2 @ v" "u \<in> lang a" "u2 \<in> lang b"
    unfolding rx_test_lang by blast
  then have "s = (u @ u2) @ v \<and> u @ u2 \<in> lang (RSeq a b)" by auto
  then show "rx_test (RSeq a b) s" unfolding rx_test_lang by blast
qed

lemma rx_test_eps: "rx_test REps s"
  by (cases s) simp_all

lemma rx_test_none: "\<not> rx_test RNone s"
  by (induction s) simp_all

lemma rx_test_class: "rx_test (RClass P) s = (\<exists>c t. s = c # t \<and> P c)"
  by (cases s) (simp_all add: rx_test_eps rx_test_none)

lemma rx_test_lit: "rx_test (RLit l) s = (\<exists>t. s = l @ t)"
  by (auto simp: rx_test_lang lang_RLit)

lemma lang_plus_class: "lang (RPlus (RClass P)) = {w. w \<noteq> [] \<and> (\<forall>c \<in> set w. P c)}"
proof (intro set_eqI iffI)
  fix w assume "w \<in> lang (RPlus (RClass P))"
  then show "w \<in> {w. w \<noteq> [] \<and> (\<forall>c \<in> set w. P c)}"
    by (auto simp: RPlus_def star_class)
next
  fix w assume "w \<in> {w. w \<noteq> [] \<and> (\<forall>c \<in> set w. P c)}"
  then obtain c v where w: "w = [c] @ v" "P c" "\<forall>x \<in> set v. P x" by (cases w) auto
  then have "[c] \<in> lang (RClass P)" "v \<in> lang (RStar (RClass P))" by (auto simp: star_class)
  from lang_seqI[OF this] show "w \<in> lang (RPlus (RClass P))" using w(1) by (simp add: RPlus_def)
qed

lemma test_function_iff:
  "rx_test rx_function s \<longleftrightarrow>
     (\<exists>pre k t. s = pre @ ''function'' @ k # t \<and> (is_space k \<or> k = CHR ''('')
        \<and> (pre = [] \<or> (\<exists>ws. ws \<noteq> [] \<and> (\<forall>c \<in> set ws. is_space c) \<and> pre = ''async'' @ ws)))"
proof -
  have opt: "lang (ROpt (RSeq (RLit ''async'') (RPlus (RClass is_space))))
      = {pre. pre = [] \<or> (\<exists>ws. ws \<noteq> [] \<and> (\<forall>c \<in> set ws. is_space c) \<and> pre = ''async'' @ ws)}"
    unfolding ROpt_def lang.simps lang_RLit lang_plus_class by auto
  have tail: "rx_test (RSeq (RLit ''function'') (RClass (\<lambda>c. is_space c \<or> c = CHR ''(''))) u
      \<longleftrightarrow> (\<exists>k t. u = ''function'' @ k # t \<and> (is_space k \<or> k = CHR ''(''))" for u
    unfolding rx_test_seq lang_RLit rx_test_class by auto
  show ?thesis
    unfolding rx_function_def rx_test_seq[of "ROpt _"] opt tail by blast
qed

lemma rx_test_star_class_seq:
  "rx_test (RSeq (RStar (RClass P)) r) s = (\<exists>u t. s = u @ t \<and> (\<forall>x \<in> set u. P x) \<and> rx_test r t)"
  unfolding rx_test_seq lang.simps star_class by simp

lemma rx_test_class_seq:
  "rx_test (RSeq (RClass P) r) s = (\<exists>c t. s = c # t \<and> P c \<and> rx_test r t)"
proof
  assume "rx_test (RSeq (RClass P) r) s"
  then show "\<exists>c t. s = c # t \<and> P c \<and> rx_test r t"
    unfolding rx_test_seq lang.simps by auto
next
  assume "\<exists>c t. s = c # t \<and> P c \<and> rx_test r t"
  then obtain c t where "s = [c] @ t" "[c] \<in> lang (RClass P)" "rx_test r t" by auto
  then show "rx_test (RSeq (RClass P) r) s" unfolding rx_test_seq by blast
qed

lemma test_arrow_iff:
  "rx_test rx_arrow s \<longleftrightarrow>
     ((\<exists>t. s = CHR ''('' # t)
      \<or> (\<exists>c w sp t. s = c # w @ sp @ ''=>'' @ t \<and> is_ident_start c
            \<and> (\<forall>x \<in> set w. is_word x) \<and> (\<forall>x \<in> set sp. is_space x)))"
proof -
  have a: "rx_test (RChar CHR ''('') s \<longleftrightarrow> (\<exists>t. s = CHR ''('' # t)"
    by (auto simp: RChar_def rx_test_class)
  have b: "rx_test (RSeq (RClass is_ident_start)
             (RSeq (RStar (RClass is_word)) (RSeq (RStar (RClass is_space)) (RLit ''=>'')))) s
     \<longleftrightarrow> (\<exists>c w sp t. s = c # w @ sp @ ''=>'' @ t \<and> is_ident_start c
            \<and> (\<forall>x \<in> set w. is_word x) \<and> (\<forall>x \<in> set sp. is_space x))"
    unfolding rx_test_class_seq rx_test_star_class_seq rx_test_lit by blast
  show ?thesis unfolding rx_arrow_def rx_test_alt a b ..
qed

section \<open>Lemmas on the normalizer\<close>

lemma dropWhile_hd: "dropWhile P s \<noteq> [] \<Longrightarrow> \<not> P (hd (dropWhile P s))"
  by (metis hd_dropWhile)

lemma trim_id:
  assumes "s \<noteq> []" "\<not> is_space (hd s)" "\<not> is_space (last s)"
  shows "trim s = s"
proof -
  have 1: "dropWhile is_space s = s" using assms(1,2) by (cases s) simp_all
  have "rev s \<noteq> []" "\<not> is_space (hd (rev s))" using assms(1,3) by (simp_all add: hd_rev)
  then have 2: "dropWhile is_space (rev s) = rev s" by (cases "rev s") simp_all
  show ?thesis by (simp add: trim_def 1 2)
qed

lemma trim_last:
  assumes "trim s \<noteq> []"
  shows "\<not> is_space (last (trim s))"
proof -
  let ?r = "dropWhile is_space (rev (dropWhile is_space s))"
  have "?r \<noteq> []" using assms by (simp add: trim_def)
  then have "\<not> is_space (hd ?r)" by (rule dropWhile_hd)
  then show ?thesis using \<open>?r \<noteq> []\<close> by (simp add: trim_def last_rev)
qed

lemma indexOf_None: "indexOf s c = None \<longleftrightarrow> c \<notin> set s"
  by (induction s) auto

lemma indexOf_Some: "indexOf s c = Some i \<Longrightarrow> \<exists>r. drop i s = c # r"
proof (induction s arbitrary: i)
  case Nil
  then show ?case by simp
next
  case (Cons x xs)
  show ?case
  proof (cases "x = c")
    case True
    with Cons.prems show ?thesis by simp
  next
    case False
    with Cons.prems obtain j where "indexOf xs c = Some j" "i = Suc j" by auto
    with Cons.IH show ?thesis by simp
  qed
qed

lemma indexOf_first: "c \<notin> set xs \<Longrightarrow> indexOf (xs @ c # ys) c = Some (length xs)"
  by (induction xs) auto

lemma drop_last: "drop i s = c # r \<Longrightarrow> last (drop i s) = last s"
  by (metis drop_eq_Nil last_drop linorder_not_less list.distinct(1))

lemma space_chars:
  "\<not> is_space CHR ''a''" "\<not> is_space CHR ''f''" "is_space CHR '' ''" "\<not> is_space CHR ''(''"
  "\<not> is_space CHR ''}''"
  by (simp_all add: is_space_def)

lemma matched_unchanged:
  "rx_test rx_function (trim code) \<or> rx_test rx_arrow (trim code) \<Longrightarrow> toFunctionExpression code = code"
  by (simp add: toFunctionExpression_def)

lemma out_fixed:
  assumes "drop i t = CHR ''('' # r" and "\<not> is_space (last t)"
  shows "toFunctionExpression (''function'' @ drop i t) = ''function'' @ drop i t"
    and "toFunctionExpression (''async function'' @ drop i t) = ''async function'' @ drop i t"
proof -
  have l: "\<not> is_space (last (drop i t))" using drop_last[OF assms(1)] assms(2) by simp
  have t1: "trim (''function'' @ drop i t) = ''function'' @ drop i t"
    using l assms(1) by (intro trim_id) (simp_all add: space_chars)
  have t2: "trim (''async function'' @ drop i t) = ''async function'' @ drop i t"
    using l assms(1) by (intro trim_id) (simp_all add: space_chars)
  have m1: "rx_test rx_function (''function'' @ drop i t)"
    unfolding test_function_iff using assms(1)
    by (intro exI[of _ "[]"] exI[of _ "CHR ''(''"] exI[of _ r]) simp
  have "''async function'' @ drop i t = (''async'' @ '' '') @ ''function'' @ CHR ''('' # r"
    using assms(1) by simp
  moreover have "'' '' \<noteq> [] \<and> (\<forall>c \<in> set '' ''. is_space c)" by (simp add: space_chars)
  ultimately have m2: "rx_test rx_function (''async function'' @ drop i t)"
    unfolding test_function_iff by blast
  show "toFunctionExpression (''function'' @ drop i t) = ''function'' @ drop i t"
    by (rule matched_unchanged, rule disjI1, subst t1, rule m1)
  show "toFunctionExpression (''async function'' @ drop i t) = ''async function'' @ drop i t"
    by (rule matched_unchanged, rule disjI1, subst t2, rule m2)
qed

lemma normalizer_idempotent: "toFunctionExpression (toFunctionExpression code) = toFunctionExpression code"
proof (cases "rx_test rx_function (trim code) \<or> rx_test rx_arrow (trim code)")
  case True
  then have "toFunctionExpression code = code" by (auto simp: toFunctionExpression_def)
  then show ?thesis by simp
next
  case False
  show ?thesis
  proof (cases "indexOf (trim code) CHR ''(''")
    case None
    then have "toFunctionExpression code = code" using False by (simp add: toFunctionExpression_def)
    then show ?thesis by simp
  next
    case (Some i)
    then obtain r where d: "drop i (trim code) = CHR ''('' # r" using indexOf_Some by blast
    then have "trim code \<noteq> []" by auto
    then have l: "\<not> is_space (last (trim code))" by (rule trim_last)
    have "toFunctionExpression code = ''function'' @ drop i (trim code)
        \<or> toFunctionExpression code = ''async function'' @ drop i (trim code)"
      using False Some by (simp add: toFunctionExpression_def slice_def Let_def)
    then show ?thesis using out_fixed[OF d l] by auto
  qed
qed

lemma no_paren_unchanged: "CHR ''('' \<notin> set code \<Longrightarrow> toFunctionExpression code = code"
proof -
  assume a: "CHR ''('' \<notin> set code"
  have "set (trim code) \<subseteq> set code"
    unfolding trim_def using set_dropWhileD by (metis set_rev subsetI)
  then have "indexOf (trim code) CHR ''('' = None" using a by (auto simp: indexOf_None)
  then show ?thesis by (simp add: toFunctionExpression_def Let_def)
qed

lemma ident_part_not:
  assumes "is_ident_part c"
  shows "\<not> is_space c" "c \<noteq> CHR ''(''" "c \<noteq> CHR ''=''"
  using assms by (auto simp: is_ident_part_def is_word_def is_space_def in_range_def)

lemma ident_start_part: "is_ident_start c \<Longrightarrow> is_ident_part c"
  by (auto simp: is_ident_part_def is_ident_start_def is_word_def)

lemma space_not:
  assumes "is_space c"
  shows "\<not> is_ident_part c" "\<not> is_word c" "c \<noteq> CHR ''(''" "c \<noteq> CHR ''=''" "c \<noteq> CHR ''$''"
  using assms by (auto simp: is_ident_part_def is_word_def is_space_def in_range_def)

lemma paren_not: "\<not> is_ident_part CHR ''(''" "\<not> is_word CHR ''(''" "\<not> is_space CHR ''(''"
  by (auto simp: is_ident_part_def is_word_def is_space_def in_range_def)

lemma word_function: "\<forall>c \<in> set ''function''. is_ident_part c" "\<forall>c \<in> set ''async''. is_ident_part c"
  by (simp_all add: is_ident_part_def is_word_def in_range_def)

lemma takeWhile_stop:
  assumes "\<forall>c \<in> set xs. P c" and "ys = [] \<or> \<not> P (hd ys)"
  shows "takeWhile P (xs @ ys) = xs"
proof -
  have "takeWhile P ys = []" using assms(2) by (cases ys) auto
  then show ?thesis using assms(1) by (simp add: takeWhile_append2)
qed

lemma dropWhile_stop:
  assumes "\<forall>c \<in> set xs. P c" and "ys = [] \<or> \<not> P (hd ys)"
  shows "dropWhile P (xs @ ys) = ys"
proof -
  have "dropWhile P ys = ys" using assms(2) by (cases ys) auto
  then show ?thesis using assms(1) by (simp add: dropWhile_append2)
qed

lemma name_token:
  assumes "list_all is_ident_part name" and "\<forall>c \<in> set sp. is_space c"
  shows "takeWhile is_ident_part (name @ sp @ CHR ''('' # r) = name"
proof (rule takeWhile_stop)
  show "\<forall>c \<in> set name. is_ident_part c" using assms(1) by (simp add: list_all_iff)
  show "sp @ CHR ''('' # r = [] \<or> \<not> is_ident_part (hd (sp @ CHR ''('' # r))"
    using assms(2) by (cases sp) (auto simp: paren_not space_not)
qed

lemma function_token:
  assumes "is_space k \<or> k = CHR ''(''"
  shows "takeWhile is_ident_part (''function'' @ k # t) = ''function''"
  using assms by (intro takeWhile_stop word_function) (auto simp: paren_not space_not)

lemma async_token:
  assumes "ws \<noteq> []" "\<forall>c \<in> set ws. is_space c"
  shows "takeWhile is_ident_part (''async'' @ ws @ t) = ''async''"
  using assms by (intro takeWhile_stop word_function) (cases ws, auto simp: space_not)

lemma skip_spaces_paren:
  assumes "\<forall>c \<in> set sp. is_space c"
  shows "dropWhile is_space (sp @ CHR ''('' # r) = CHR ''('' # r"
  using assms by (intro dropWhile_stop) (auto simp: paren_not)

lemma skip_spaces_function:
  assumes "\<forall>c \<in> set ws. is_space c"
  shows "dropWhile is_space (ws @ ''function'' @ t) = ''function'' @ t"
  using assms by (intro dropWhile_stop) (auto simp: is_space_def)

lemma skip_spaces_name:
  assumes "\<forall>c \<in> set ws. is_space c" "name \<noteq> []" "is_ident_part (hd name)"
  shows "dropWhile is_space (ws @ name @ t) = name @ t"
  using assms by (intro dropWhile_stop) (auto simp: ident_part_not)

lemma identifier_parts:
  assumes "is_identifier name"
  shows "name \<noteq> []" "is_ident_start (hd name)" "list_all is_ident_part name"
  using assms by (auto simp: is_identifier_def ident_start_part split: list.splits)

lemma method_not_function:
  assumes n: "is_identifier name" "name \<noteq> ''function''"
    and sp: "\<forall>c \<in> set sp. is_space c"
    and pre: "pre = [] \<or> (\<exists>ws. ws \<noteq> [] \<and> (\<forall>c \<in> set ws. is_space c) \<and> pre = ''async'' @ ws)"
  shows "\<not> rx_test rx_function (pre @ name @ sp @ CHR ''('' # r)"
proof
  let ?code = "pre @ name @ sp @ CHR ''('' # r"
  note ip = identifier_parts[OF n(1)]
  assume "rx_test rx_function ?code"
  then obtain p k t where c: "?code = p @ ''function'' @ k # t"
    and k: "is_space k \<or> k = CHR ''(''"
    and p: "p = [] \<or> (\<exists>ws. ws \<noteq> [] \<and> (\<forall>c \<in> set ws. is_space c) \<and> p = ''async'' @ ws)"
    unfolding test_function_iff by blast
  have named_function: False if "name @ sp @ CHR ''('' # r = ''function'' @ k # t"
  proof -
    from that have "takeWhile is_ident_part (name @ sp @ CHR ''('' # r)
               = takeWhile is_ident_part (''function'' @ k # t)" by simp
    then have "name = ''function''"
      unfolding name_token[OF ip(3) sp] function_token[OF k] .
    then show False using n(2) by simp
  qed
  from pre show False
  proof
    assume e: "pre = []"
    from p show False
    proof
      assume "p = []"
      then show False using c e named_function by simp
    next
      assume "\<exists>ws. ws \<noteq> [] \<and> (\<forall>c \<in> set ws. is_space c) \<and> p = ''async'' @ ws"
      then obtain ws where ws: "ws \<noteq> []" "\<forall>c \<in> set ws. is_space c" "p = ''async'' @ ws" by blast
      have eq: "name @ sp @ CHR ''('' # r = ''async'' @ ws @ (''function'' @ k # t)"
        using c e ws(3) by simp
      then have "takeWhile is_ident_part (name @ sp @ CHR ''('' # r)
               = takeWhile is_ident_part (''async'' @ ws @ (''function'' @ k # t))" by simp
      then have na: "name = ''async''"
        unfolding name_token[OF ip(3) sp] async_token[OF ws(1,2)] .
      then have "sp @ CHR ''('' # r = ws @ ''function'' @ (k # t)" using eq by simp
      then have "dropWhile is_space (sp @ CHR ''('' # r) = dropWhile is_space (ws @ ''function'' @ (k # t))"
        by simp
      then show False unfolding skip_spaces_paren[OF sp] skip_spaces_function[OF ws(2)] by simp
    qed
  next
    assume "\<exists>ws. ws \<noteq> [] \<and> (\<forall>c \<in> set ws. is_space c) \<and> pre = ''async'' @ ws"
    then obtain ws0 where ws0: "ws0 \<noteq> []" "\<forall>c \<in> set ws0. is_space c" "pre = ''async'' @ ws0" by blast
    from p show False
    proof
      assume "p = []"
      then show False using c ws0(3) by simp
    next
      assume "\<exists>ws. ws \<noteq> [] \<and> (\<forall>c \<in> set ws. is_space c) \<and> p = ''async'' @ ws"
      then obtain ws where ws: "ws \<noteq> []" "\<forall>c \<in> set ws. is_space c" "p = ''async'' @ ws" by blast
      have "ws0 @ name @ (sp @ CHR ''('' # r) = ws @ ''function'' @ (k # t)"
        using c ws0(3) ws(3) by simp
      then have "dropWhile is_space (ws0 @ name @ (sp @ CHR ''('' # r))
          = dropWhile is_space (ws @ ''function'' @ (k # t))" by simp
      then have "name @ (sp @ CHR ''('' # r) = ''function'' @ (k # t)"
        unfolding skip_spaces_name[OF ws0(2) ip(1) ident_start_part[OF ip(2)]]
          skip_spaces_function[OF ws(2)] .
      then show False using named_function by simp
    qed
  qed
qed

lemma after_word_run:
  assumes "list_all is_ident_part xs" and "\<forall>c \<in> set sp. is_space c"
  shows "\<exists>y ys. dropWhile is_space (dropWhile is_word (xs @ sp @ CHR ''('' # r)) = y # ys
           \<and> (y = CHR ''$'' \<or> y = CHR ''('')"
  using assms(1)
proof (induction xs)
  case Nil
  have "dropWhile is_word (sp @ CHR ''('' # r) = sp @ CHR ''('' # r"
    using assms(2) by (cases sp) (auto simp: paren_not space_not)
  then show ?case using skip_spaces_paren[OF assms(2), of r] by simp
next
  case (Cons x xs)
  show ?case
  proof (cases "is_word x")
    case True
    then show ?thesis using Cons by simp
  next
    case False
    then have "x = CHR ''$''" using Cons.prems by (simp add: is_ident_part_def)
    then show ?thesis using False by (simp add: is_space_def)
  qed
qed

lemma after_arrow_head:
  assumes "\<forall>x \<in> set w. is_word x" and "\<forall>x \<in> set sp. is_space x"
  shows "dropWhile is_space (dropWhile is_word (w @ sp @ ''=>'' @ t)) = ''=>'' @ t"
proof -
  have "\<not> is_word (hd (sp @ ''=>'' @ t))"
  proof (cases sp)
    case Nil
    then show ?thesis by (simp add: is_word_def in_range_def)
  next
    case (Cons a list)
    then show ?thesis using assms(2) by (simp add: space_not)
  qed
  then have "dropWhile is_word (w @ (sp @ ''=>'' @ t)) = sp @ ''=>'' @ t"
    using assms(1) by (intro dropWhile_stop) auto
  moreover have "dropWhile is_space (sp @ (''=>'' @ t)) = ''=>'' @ t"
    using assms(2) by (intro dropWhile_stop) (auto simp: is_space_def)
  ultimately show ?thesis by simp
qed

lemma method_not_arrow:
  assumes n: "is_identifier name"
    and sp: "\<forall>c \<in> set sp. is_space c"
    and pre: "pre = [] \<or> (\<exists>ws. ws \<noteq> [] \<and> (\<forall>c \<in> set ws. is_space c) \<and> pre = ''async'' @ ws)"
  shows "\<not> rx_test rx_arrow (pre @ name @ sp @ CHR ''('' # r)"
proof
  let ?code = "pre @ name @ sp @ CHR ''('' # r"
  note ip = identifier_parts[OF n]
  obtain n0 ns where name: "name = n0 # ns" using ip(1) by (cases name) auto
  have ns: "list_all is_ident_part ns" and n0: "is_ident_start n0" using ip name by simp_all
  assume "rx_test rx_arrow ?code"
  then consider (paren) t where "?code = CHR ''('' # t"
    | (arrow) c w s t where "?code = c # w @ s @ ''=>'' @ t" "\<forall>x \<in> set w. is_word x" "\<forall>x \<in> set s. is_space x"
    unfolding test_arrow_iff by blast
  then show False
  proof cases
    case paren
    then have "hd ?code = CHR ''(''" by simp
    moreover have "hd ?code = n0 \<or> hd ?code = CHR ''a''" using pre name by auto
    ultimately show False using ident_part_not(2)[OF ident_start_part[OF n0]] by auto
  next
    case arrow
    then have "tl ?code = w @ s @ ''=>'' @ t" by simp
    then have "dropWhile is_space (dropWhile is_word (tl ?code)) = ''=>'' @ t"
      using after_arrow_head[OF arrow(2,3)] by simp
    then have h: "hd (dropWhile is_space (dropWhile is_word (tl ?code))) = CHR ''=''" by simp
    from pre show False
    proof
      assume "pre = []"
      then have "tl ?code = ns @ sp @ CHR ''('' # r" using name by simp
      then show False using after_word_run[OF ns sp, of r] h by auto
    next
      assume "\<exists>ws. ws \<noteq> [] \<and> (\<forall>c \<in> set ws. is_space c) \<and> pre = ''async'' @ ws"
      then obtain ws where ws: "ws \<noteq> []" "\<forall>c \<in> set ws. is_space c" "pre = ''async'' @ ws" by blast
      have "\<not> is_word (hd (ws @ name @ (sp @ CHR ''('' # r)))"
        using ws(1,2) by (cases ws) (simp_all add: space_not)
      then have "dropWhile is_word (''sync'' @ (ws @ name @ (sp @ CHR ''('' # r)))
          = ws @ name @ (sp @ CHR ''('' # r)"
        using ws(1) by (intro dropWhile_stop) (auto simp: is_word_def in_range_def)
      then have "dropWhile is_word (tl ?code) = ws @ name @ (sp @ CHR ''('' # r)"
        using ws(3) by simp
      then have "dropWhile is_space (dropWhile is_word (tl ?code)) = name @ (sp @ CHR ''('' # r)"
        using skip_spaces_name[OF ws(2) ip(1) ident_start_part[OF ip(2)]] by simp
      then have "n0 = CHR ''=''" using h name by simp
      then show False using ident_part_not(3)[OF ident_start_part[OF n0]] by simp
    qed
  qed
qed

lemma startsWith_append: "startsWith s p \<longleftrightarrow> (\<exists>u. s = p @ u)"
  unfolding startsWith_def by (metis append_eq_conv_conj append_take_drop_id)

lemma normalize_add:
  "toFunctionExpression ''add(a, b) { return a + b }'' = ''function(a, b) { return a + b }''"
  by code_simp


lemma normalize_throw_null:
  "toFunctionExpression ''fail() { throw null }'' = ''function() { throw null }''"
  by code_simp


lemma normalize_async_arrow:
  "toFunctionExpression ''async (x) => x * 2'' = ''async function(x) => x * 2''"
  by code_simp

section \<open>Lemmas on the dispatcher\<close>

lemma settlements_emit [simp]:
  "settlements (emit a st) = settlements st @ (if is_settlement a then [a] else [])"
  by (simp add: settlements_def emit_def)

lemma emit_fields [simp]:
  "isResolved (emit a st) = isResolved st" "timeoutId (emit a st) = timeoutId st"
  "timerArmed (emit a st) = timerArmed st" "onMessage (emit a st) = onMessage st"
  "onError (emit a st) = onError st" "onExit (emit a st) = onExit st"
  "actions (emit a st) = actions st @ [a]"
  by (simp_all add: emit_def)

lemma settlements_upd [simp]:
  "settlements (st\<lparr>isResolved := b\<rparr>) = settlements st"
  "settlements (st\<lparr>timeoutId := t\<rparr>) = settlements st"
  "settlements (st\<lparr>timerArmed := b\<rparr>) = settlements st"
  "settlements (st\<lparr>onMessage := b\<rparr>) = settlements st"
  "settlements (st\<lparr>onError := b\<rparr>) = settlements st"
  "settlements (st\<lparr>onExit := b\<rparr>) = settlements st"
  by (simp_all add: settlements_def)

lemma rejectOnce_resolved: "isResolved st \<Longrightarrow> rejectOnce e st = st"
  by (simp add: rejectOnce_def)

lemma resolveOnce_resolved: "isResolved st \<Longrightarrow> resolveOnce v st = st"
  by (simp add: resolveOnce_def)

lemma pending_start: "pending d (RunInNewThread d this args)"
  by (simp add: pending_def RunInNewThread_def setTimeout_def Let_def settlements_def emit_def)

lemma cleanup_pending:
  assumes "pending d st"
  shows "actions (cleanup (st\<lparr>isResolved := True\<rparr>)) = actions st @ cleanup_actions d"
    and "timeoutId (cleanup (st\<lparr>isResolved := True\<rparr>)) = None"
    and "timerArmed (cleanup (st\<lparr>isResolved := True\<rparr>)) = False"
    and "isResolved (cleanup (st\<lparr>isResolved := True\<rparr>))"
  using assms by (auto simp: pending_def cleanup_def cleanup_actions_def Let_def emit_def)

lemma rejectOnce_pending:
  assumes "pending d st"
  shows "actions (rejectOnce e st) = actions st @ cleanup_actions d @ [Reject e]"
    and "settled d (rejectOnce e st)"
  using assms
  by (auto simp: pending_def settled_def rejectOnce_def cleanup_def cleanup_actions_def Let_def emit_def settlements_def)

lemma resolveOnce_pending:
  assumes "pending d st"
  shows "actions (resolveOnce v st) = actions st @ cleanup_actions d @ [Resolve v]"
    and "settled d (resolveOnce v st)"
  using assms
  by (auto simp: pending_def settled_def resolveOnce_def cleanup_def cleanup_actions_def Let_def emit_def settlements_def)

lemma pending_upd [simp]:
  "pending d (st\<lparr>onMessage := b\<rparr>) = pending d st"
  "pending d (st\<lparr>onError := b\<rparr>) = pending d st"
  "pending d (st\<lparr>onExit := b\<rparr>) = pending d st"
  by (simp_all add: pending_def settlements_def)

lemma settled_upd [simp]:
  "settled d (st\<lparr>onMessage := b\<rparr>) = settled d st"
  "settled d (st\<lparr>onError := b\<rparr>) = settled d st"
  "settled d (st\<lparr>onExit := b\<rparr>) = settled d st"
  by (simp_all add: settled_def settlements_def)

lemma pending_console:
  "pending d st \<Longrightarrow> pending d (emit (ConsoleError a b) st)"
  "pending d st \<Longrightarrow> pending d (emit (Unhandled e) st)"
  by (simp_all add: pending_def)

lemma settled_console:
  "settled d st \<Longrightarrow> settled d (emit (ConsoleError a b) st)"
  "settled d st \<Longrightarrow> settled d (emit (Unhandled e) st)"
  by (simp_all add: settled_def)

lemma deliver_pending:
  assumes "pending d st"
  shows "pending d (deliver h d st ev) \<or> settled d (deliver h d st ev)"
proof (cases ev)
  case (Message v)
  then show ?thesis using assms
    by (auto simp: messageHandler_def rejectOnce_pending resolveOnce_pending split: option.splits)
next
  case (WorkerError e)
  then show ?thesis using assms
    by (auto simp: errorHandler_def rejectOnce_pending pending_console)
next
  case (Exit code)
  then show ?thesis using assms
    by (auto simp: exitHandler_def rejectOnce_pending)
next
  case Deadline
  show ?thesis
  proof (cases "timerArmed st")
    case True
    have "truthy (timeout d)" using assms True by (simp add: pending_def)
    then show ?thesis using assms Deadline True
      by (auto simp: timeoutCallback_def Let_def pending_def settled_def rejectOnce_def cleanup_def emit_def settlements_def)
  next
    case False
    then show ?thesis using assms Deadline by simp
  qed
qed

lemma deliver_settled:
  assumes "settled d st"
  shows "settled d (deliver h d st ev)"
proof -
  have r: "isResolved st" using assms by (simp add: settled_def)
  show ?thesis
  proof (cases ev)
    case (Message v)
    then show ?thesis using assms r
      by (auto simp: messageHandler_def rejectOnce_resolved resolveOnce_resolved split: option.splits)
  next
    case (WorkerError e)
    then show ?thesis using assms r
      by (auto simp: errorHandler_def rejectOnce_resolved settled_console)
  next
    case (Exit code)
    then show ?thesis using assms r by (auto simp: exitHandler_def)
  next
    case Deadline
    then show ?thesis using assms by (simp add: settled_def)
  qed
qed

lemma run_Nil [simp]: "run h d st [] = st"
  by (simp add: run_def)

lemma run_Cons [simp]: "run h d st (ev # evs) = run h d (deliver h d st ev) evs"
  by (simp add: run_def)

lemma run_append: "run h d st (evs @ evs') = run h d (run h d st evs) evs'"
  by (simp add: run_def)

lemma run_settled: "settled d st \<Longrightarrow> settled d (run h d st evs)"
  by (induction evs arbitrary: st) (simp_all add: deliver_settled)

lemma run_pending: "pending d st \<Longrightarrow> pending d (run h d st evs) \<or> settled d (run h d st evs)"
proof (induction evs arbitrary: st)
  case Nil
  then show ?case by simp
next
  case (Cons ev evs)
  from deliver_pending[OF Cons.prems, of h ev] show ?case
    using Cons.IH run_settled by auto
qed

lemma reachable_phase:
  "pending d (run h d (RunInNewThread d this args) evs) \<or> settled d (run h d (RunInNewThread d this args) evs)"
  by (rule run_pending[OF pending_start])

lemma settlements_all: "a \<in> set (settlements st) \<Longrightarrow> is_settlement a"
  by (simp add: settlements_def)

lemma promise_pending: "pending d st \<Longrightarrow> promise_of st = Pending"
  by (simp add: pending_def promise_of_def)

lemma promise_settled: "settled d st \<Longrightarrow> promise_of st \<noteq> Pending"
proof -
  assume s: "settled d st"
  then obtain a where a: "settlements st = [a]"
    by (auto simp: settled_def length_Suc_conv)
  then have "is_settlement a" using settlements_all[of a st] by simp
  then show ?thesis using a by (cases a) (simp_all add: promise_of_def)
qed

lemma deliver_resolved_settlements:
  "isResolved st \<Longrightarrow> settlements (deliver h d st ev) = settlements st \<and> isResolved (deliver h d st ev)"
  by (cases ev)
     (auto simp: messageHandler_def errorHandler_def exitHandler_def timeoutCallback_def Let_def
        rejectOnce_def resolveOnce_def split: option.splits)

lemma run_resolved_settlements:
  "isResolved st \<Longrightarrow> settlements (run h d st evs) = settlements st"
proof (induction evs arbitrary: st)
  case Nil
  then show ?case by simp
next
  case (Cons ev evs)
  from deliver_resolved_settlements[OF Cons.prems, of h d ev] Cons.IH show ?case by simp
qed

lemma pending_not_resolved: "pending d st \<Longrightarrow> \<not> isResolved st"
  by (simp add: pending_def)

lemma settled_resolved: "settled d st \<Longrightarrow> isResolved st"
  by (simp add: settled_def)

lemma reachable_unresolved:
  assumes "st = run h d (RunInNewThread d this args) evs" and "\<not> isResolved st"
  shows "pending d st"
  using reachable_phase[of d h this args evs] assms settled_resolved by auto

lemma promise_of_one:
  "settlements st = [] \<Longrightarrow> actions st' = actions st @ xs @ [Reject e] \<Longrightarrow> \<forall>a \<in> set xs. \<not> is_settlement a
     \<Longrightarrow> promise_of st' = Rejected e"
  "settlements st = [] \<Longrightarrow> actions st' = actions st @ xs @ [Resolve v] \<Longrightarrow> \<forall>a \<in> set xs. \<not> is_settlement a
     \<Longrightarrow> promise_of st' = Fulfilled v"
  by (simp_all add: promise_of_def settlements_def)

lemma cleanup_actions_plain: "\<forall>a \<in> set (cleanup_actions d). \<not> is_settlement a"
  by (simp add: cleanup_actions_def)

lemma promise_rejectOnce: "pending d st \<Longrightarrow> promise_of (rejectOnce e st) = Rejected e"
  using promise_of_one(1)[of st "rejectOnce e st" "cleanup_actions d" e]
  by (simp add: rejectOnce_pending cleanup_actions_plain pending_def)

lemma promise_resolveOnce: "pending d st \<Longrightarrow> promise_of (resolveOnce v st) = Fulfilled v"
  using promise_of_one(2)[of st "resolveOnce v st" "cleanup_actions d" v]
  by (simp add: resolveOnce_pending cleanup_actions_plain pending_def)

lemmas call_defs = RunInNewThread_def setTimeout_def truthy_def emit_def Let_def
    timeoutCallback_def messageHandler_def errorHandler_def exitHandler_def
    rejectOnce_def resolveOnce_def cleanup_def new_Error_def template_def

lemma posted_emit [simp]:
  "posted (emit a st) = posted st @ (case a of PostMessage c xs \<Rightarrow> [(c, xs)] | _ \<Rightarrow> [])"
  by (simp add: posted_def emit_def)

lemma posted_upd [simp]:
  "posted (st\<lparr>isResolved := b\<rparr>) = posted st"
  "posted (st\<lparr>timeoutId := t\<rparr>) = posted st"
  "posted (st\<lparr>timerArmed := b\<rparr>) = posted st"
  "posted (st\<lparr>onMessage := b\<rparr>) = posted st"
  "posted (st\<lparr>onError := b\<rparr>) = posted st"
  "posted (st\<lparr>onExit := b\<rparr>) = posted st"
  by (simp_all add: posted_def)

lemma posted_once: "posted (rejectOnce e st) = posted st" "posted (resolveOnce v st) = posted st"
  by (simp_all add: rejectOnce_def resolveOnce_def cleanup_def Let_def)

lemma posted_deliver: "posted (deliver h d st ev) = posted st"
  by (cases ev)
     (simp_all add: messageHandler_def errorHandler_def exitHandler_def timeoutCallback_def
        Let_def posted_once split: option.splits)

lemma posted_run: "posted (run h d st evs) = posted st"
  by (induction evs arbitrary: st) (simp_all add: posted_deliver)

lemma posted_start: "posted (RunInNewThread d this args) = [(fnCode d, args)]"
  by (simp add: RunInNewThread_def setTimeout_def Let_def posted_def emit_def)

lemma workerHandler_this:
  assumes "invoke h1 (toFunctionExpression c) (JObj []) a = invoke h2 (toFunctionExpression c) (JObj []) a"
  shows "workerHandler h1 (c, a) = workerHandler h2 (c, a)"
  using assms by simp

lemma timerless_once:
  "timerless st \<Longrightarrow> timerless (rejectOnce e st)" "timerless st \<Longrightarrow> timerless (resolveOnce v st)"
  by (simp_all add: timerless_def rejectOnce_def resolveOnce_def cleanup_def Let_def emit_def)

lemma timerless_upd [simp]:
  "timerless (st\<lparr>onMessage := b\<rparr>) = timerless st"
  "timerless (st\<lparr>onError := b\<rparr>) = timerless st"
  "timerless (st\<lparr>onExit := b\<rparr>) = timerless st"
  by (simp_all add: timerless_def)

lemma timerless_emit: "timerless st \<Longrightarrow> timerless (emit (ConsoleError a b) st)"
  "timerless st \<Longrightarrow> timerless (emit (Unhandled e) st)"
  by (simp_all add: timerless_def emit_def)

lemma timerless_deliver: "timerless st \<Longrightarrow> timerless (deliver h d st ev)"
  by (cases ev)
     (auto simp: messageHandler_def errorHandler_def exitHandler_def timerless_once timerless_emit
        split: option.splits, simp add: timerless_def)

lemma timerless_deadline: "timerless st \<Longrightarrow> deliver h d st Deadline = st"
  by (simp add: timerless_def)

lemma timerless_deliver_any: "timerless st \<Longrightarrow> deliver h d st ev = deliver h d' st ev"
  by (cases ev) (simp_all add: timerless_def)

lemma timerless_run: "timerless st \<Longrightarrow> timerless (run h d st evs)"
  by (induction evs arbitrary: st) (simp_all add: timerless_deliver)

lemma timerless_run_any: "timerless st \<Longrightarrow> run h d st evs = run h d' st evs"
proof (induction evs arbitrary: st)
  case Nil
  then show ?case by simp
next
  case (Cons ev evs)
  have "run h d (deliver h d st ev) evs = run h d' (deliver h d st ev) evs"
    using Cons.prems by (intro Cons.IH timerless_deliver)
  then show ?case using timerless_deliver_any[OF Cons.prems, of h d ev d'] by simp
qed

lemma timerless_run_filter:
  "timerless st \<Longrightarrow> run h d st (filter (\<lambda>ev. ev \<noteq> Deadline) evs) = run h d st evs"
proof (induction evs arbitrary: st)
  case Nil
  then show ?case by simp
next
  case (Cons ev evs)
  show ?case
  proof (cases "ev = Deadline")
    case True
    then show ?thesis using Cons.IH[OF Cons.prems] timerless_deadline[OF Cons.prems, of h d] by simp
  next
    case False
    then show ?thesis using Cons.IH[OF timerless_deliver[OF Cons.prems, of h d ev]] by simp
  qed
qed

lemma timerless_start: "\<not> truthy (timeout d) \<Longrightarrow> timerless (RunInNewThread d this args)"
  by (simp add: timerless_def RunInNewThread_def setTimeout_def Let_def)

section \<open>The claims\<close>

subsection \<open>Settlement\<close>

text \<open>
  C1. Whatever events follow a call and in whatever order, the promise of the call is
  settled at most once: \<^verbatim>\<open>resolve\<close> and \<^verbatim>\<open>reject\<close> are called at most once
  altogether, the call is marked resolved exactly when its promise has left the pending
  state, and once it has, nothing that arrives later changes the settlement; a later
  message, a later deadline and a later exit run their handlers to no effect and add no
  action at all.
\<close>

theorem settled_at_most_once:
  assumes "st = run h d (RunInNewThread d this args) evs"
  shows "length (settlements st) \<le> 1
    \<and> isResolved st = (promise_of st \<noteq> Pending)
    \<and> (isResolved st \<longrightarrow>
          settlements (run h d st evs') = settlements st
        \<and> promise_of (run h d st evs') = promise_of st
        \<and> messageHandler h v st = st \<and> timeoutCallback h d st = st \<and> exitHandler h code st = st
        \<and> actions (deliver h d st (Message v)) = actions st
        \<and> actions (deliver h d st Deadline) = actions st
        \<and> actions (deliver h d st (Exit code)) = actions st)"
proof -
  from reachable_phase[of d h this args evs] assms
  consider (p) "pending d st" | (s) "settled d st" by auto
  then show ?thesis
  proof cases
    case p
    then show ?thesis by (simp add: pending_def promise_of_def)
  next
    case s
    then have r: "isResolved st" by (rule settled_resolved)
    have 1: "length (settlements st) \<le> 1" using s by (simp add: settled_def)
    have 2: "promise_of st \<noteq> Pending" using s by (rule promise_settled)
    have 3: "settlements (run h d st evs') = settlements st" using r by (rule run_resolved_settlements)
    then have 4: "promise_of (run h d st evs') = promise_of st" by (simp add: promise_of_def)
    have 5: "messageHandler h v st = st" "timeoutCallback h d st = st" "exitHandler h code st = st"
      using r by (simp_all add: messageHandler_def timeoutCallback_def exitHandler_def Let_def
          rejectOnce_def resolveOnce_def split: option.splits)
    have 6: "actions (deliver h d st (Message v)) = actions st"
      "actions (deliver h d st Deadline) = actions st"
      "actions (deliver h d st (Exit code)) = actions st"
      using r by (simp_all add: messageHandler_def timeoutCallback_def exitHandler_def Let_def
          rejectOnce_def resolveOnce_def split: option.splits)
    show ?thesis using r 1 2 3 4 5 6 by simp
  qed
qed

theorem settled_at_most_once_witness:
  "isResolved (run test_host test_decoration (RunInNewThread test_decoration () [])
        [Message \<lparr>error = None, success = JNum 15\<rparr>])
   \<and> length (settlements (run test_host test_decoration (RunInNewThread test_decoration () [])
        [Message \<lparr>error = None, success = JNum 15\<rparr>])) \<le> 1
   \<and> promise_of (run test_host test_decoration
        (run test_host test_decoration (RunInNewThread test_decoration () [])
           [Message \<lparr>error = None, success = JNum 15\<rparr>])
        [Deadline, Exit 1, Message \<lparr>error = None, success = JNull\<rparr>]) = Fulfilled (JNum 15)"
proof -
  let ?st = "run test_host test_decoration (RunInNewThread test_decoration () [])
        [Message \<lparr>error = None, success = JNum 15\<rparr>]"
  have r: "isResolved ?st"
    by (simp add: test_host_def test_decoration_def call_defs)
  have p: "promise_of ?st = Fulfilled (JNum 15)"
    by (simp add: test_host_def test_decoration_def call_defs promise_of_def settlements_def)
  from settled_at_most_once[OF refl, of test_host test_decoration "()" "[]"
      "[Message \<lparr>error = None, success = JNum 15\<rparr>]"
      "[Deadline, Exit 1, Message \<lparr>error = None, success = JNull\<rparr>]"] r p
  show ?thesis by simp
qed

text \<open>
  C2. When the call settles, by whichever event, \<^verbatim>\<open>cleanup\<close> has run exactly once: the
  worker was terminated once, the timer (when one was created) was cleared once and is no
  longer armed. Before settlement no cleanup has happened, and \<^verbatim>\<open>resolveOnce\<close> and
  \<^verbatim>\<open>rejectOnce\<close>, the only two ways to settle, both do the cleanup first and settle after.
\<close>

theorem cleanup_exactly_once:
  assumes "st = run h d (RunInNewThread d this args) evs"
  shows "(isResolved st \<longrightarrow>
            count_list (actions st) Terminate = 1
          \<and> count_list (actions st) ClearTimeout = (if truthy (timeout d) then 1 else 0)
          \<and> \<not> timerArmed st \<and> timeoutId st = None)
       \<and> (\<not> isResolved st \<longrightarrow>
            count_list (actions st) Terminate = 0
          \<and> count_list (actions st) ClearTimeout = 0
          \<and> actions (resolveOnce v st) = actions st @ cleanup_actions d @ [Resolve v]
          \<and> actions (rejectOnce e st) = actions st @ cleanup_actions d @ [Reject e])"
proof -
  from reachable_phase[of d h this args evs] assms
  consider (p) "pending d st" | (s) "settled d st" by auto
  then show ?thesis
  proof cases
    case p
    then show ?thesis
      using rejectOnce_pending(1)[OF p] resolveOnce_pending(1)[OF p]
      by (simp add: pending_def)
  next
    case s
    then show ?thesis by (simp add: settled_def)
  qed
qed

theorem cleanup_exactly_once_witness:
  "isResolved (run test_host test_decoration (RunInNewThread test_decoration () []) [Deadline, Exit 1])
   \<and> count_list (actions (run test_host test_decoration (RunInNewThread test_decoration () [])
          [Deadline, Exit 1])) Terminate = 1
   \<and> count_list (actions (run test_host test_decoration (RunInNewThread test_decoration () [])
          [Deadline, Exit 1])) ClearTimeout = 1
   \<and> \<not> timerArmed (run test_host test_decoration (RunInNewThread test_decoration () [])
          [Deadline, Exit 1])"
proof -
  let ?st = "run test_host test_decoration (RunInNewThread test_decoration () []) [Deadline, Exit 1]"
  have r: "isResolved ?st"
    by (simp add: test_host_def test_decoration_def call_defs)
  have t: "truthy (timeout test_decoration)"
    by (simp add: test_decoration_def truthy_def)
  from cleanup_exactly_once[OF refl, of test_host test_decoration "()" "[]" "[Deadline, Exit 1]"] r t
  show ?thesis by simp
qed

text \<open>
  C3. The first message that reaches a call that has not settled decides it: with an
  \<^verbatim>\<open>error\<close> field the promise is rejected with an error that has the message, the stack
  and the name of that field; without one the promise is fulfilled with the \<^verbatim>\<open>success\<close>
  field, whatever its value, \<^verbatim>\<open>undefined\<close> and \<^verbatim>\<open>null\<close> included.
\<close>

theorem message_settles:
  assumes "st = run h d (RunInNewThread d this args) evs"
    and "\<not> isResolved st" and "onMessage st"
  shows "promise_of (deliver h d st (Message v)) =
     (case error v of
        Some e \<Rightarrow> Rejected \<lparr>err_name = fld_name e, err_message = fld_message e,
                             err_stack = fld_stack e, err_context = None\<rparr>
      | None \<Rightarrow> Fulfilled (success v))"
proof -
  have p: "pending d (st\<lparr>onMessage := False\<rparr>)"
    using reachable_unresolved[OF assms(1,2)] by simp
  show ?thesis using assms(3)
    by (simp add: messageHandler_def promise_rejectOnce[OF p] promise_resolveOnce[OF p] new_Error_def
        split: option.splits)
qed

theorem message_settles_witness:
  "promise_of (deliver test_host test_decoration (RunInNewThread test_decoration () [])
      (Message \<lparr>error = None, success = JUndefined\<rparr>)) = Fulfilled JUndefined
   \<and> promise_of (deliver test_host test_decoration (RunInNewThread test_decoration () [])
      (Message \<lparr>error = None, success = JNull\<rparr>)) = Fulfilled JNull
   \<and> promise_of (deliver test_host test_decoration (RunInNewThread test_decoration () [])
      (Message \<lparr>error = None, success = JBool False\<rparr>)) = Fulfilled (JBool False)
   \<and> promise_of (deliver test_host test_decoration (RunInNewThread test_decoration () [])
      (Message \<lparr>error = Some \<lparr>fld_message = ''This is a type error'',
                                 fld_stack = ''TypeError: This is a type error'',
                                 fld_name = ''TypeError''\<rparr>,
                success = JUndefined\<rparr>))
     = Rejected \<lparr>err_name = ''TypeError'', err_message = ''This is a type error'',
                 err_stack = ''TypeError: This is a type error'', err_context = None\<rparr>"
proof -
  let ?st = "RunInNewThread test_decoration () []"
  have e: "?st = run test_host test_decoration ?st []" by simp
  have u: "\<not> isResolved ?st" and m: "onMessage ?st"
    by (simp_all add: test_decoration_def call_defs setTimeout_def)
  from message_settles[OF e u m, of "\<lparr>error = None, success = JUndefined\<rparr>"]
    message_settles[OF e u m, of "\<lparr>error = None, success = JNull\<rparr>"]
    message_settles[OF e u m, of "\<lparr>error = None, success = JBool False\<rparr>"]
    message_settles[OF e u m, of "\<lparr>error = Some \<lparr>fld_message = ''This is a type error'',
                                 fld_stack = ''TypeError: This is a type error'',
                                 fld_name = ''TypeError''\<rparr>, success = JUndefined\<rparr>"]
  show ?thesis by simp
qed

subsection \<open>Synthetic failures\<close>

text \<open>
  C4. In a call that has not settled: when the armed timer runs out, the promise is
  rejected with the message \<^verbatim>\<open>Worker execution timed out after N ms\<close>, \<open>N\<close> the
  configured timeout as the language prints it, and the context
  \<^verbatim>\<open>ClassName/methodName\<close>; when the worker exits with a code other than 0, the promise
  is rejected with the message \<^verbatim>\<open>Worker stopped with exit code N\<close>. In both messages
  \<open>N\<close> is the decimal numeral whenever the number is a safe integer. An exit with code 0
  rejects nothing, and neither does any exit after settlement.
\<close>

theorem synthetic_failures:
  assumes "st = run h d (RunInNewThread d this args) evs"
  shows "(\<not> isResolved st \<and> timerArmed st \<longrightarrow>
            (\<exists>n. timeout d = Some n \<and> n \<noteq> 0 \<and>
               promise_of (deliver h d st Deadline) =
                 Rejected \<lparr>err_name = ''Error'',
                           err_message = ''Worker execution timed out after '' @ Number_toString h n @ '' ms'',
                           err_stack = captureStack h (''Worker execution timed out after '' @ Number_toString h n @ '' ms''),
                           err_context = Some (className d @ ''/'' @ methodName d)\<rparr>
               \<and> (is_safe_integer n \<longrightarrow> Number_toString h n = decimal n)))
       \<and> (\<not> isResolved st \<and> onExit st \<and> code \<noteq> 0 \<longrightarrow>
            promise_of (deliver h d st (Exit code)) =
              Rejected \<lparr>err_name = ''Error'',
                        err_message = ''Worker stopped with exit code '' @ Number_toString h code,
                        err_stack = captureStack h (''Worker stopped with exit code '' @ Number_toString h code),
                        err_context = None\<rparr>
            \<and> (is_safe_integer code \<longrightarrow> Number_toString h code = decimal code))
       \<and> (\<not> isResolved st \<longrightarrow> promise_of (deliver h d st (Exit 0)) = Pending)
       \<and> (isResolved st \<longrightarrow>
            actions (deliver h d st (Exit code)) = actions st
          \<and> promise_of (deliver h d st (Exit code)) = promise_of st)"
proof -
  have safe: "is_safe_integer k \<longrightarrow> Number_toString h k = decimal k" for k
    by (simp add: Number_toString_def)
  have a: "\<exists>n. timeout d = Some n \<and> n \<noteq> 0 \<and>
               promise_of (deliver h d st Deadline) =
                 Rejected \<lparr>err_name = ''Error'',
                           err_message = ''Worker execution timed out after '' @ Number_toString h n @ '' ms'',
                           err_stack = captureStack h (''Worker execution timed out after '' @ Number_toString h n @ '' ms''),
                           err_context = Some (className d @ ''/'' @ methodName d)\<rparr>
               \<and> (is_safe_integer n \<longrightarrow> Number_toString h n = decimal n)"
    if u: "\<not> isResolved st" and t: "timerArmed st"
  proof -
    have p: "pending d st" using reachable_unresolved[OF assms u] .
    then have "truthy (timeout d)" using t by (simp add: pending_def)
    then obtain n where n: "timeout d = Some n" "n \<noteq> 0"
      by (auto simp: truthy_def split: option.splits)
    have "promise_of (timeoutCallback h d (st\<lparr>timerArmed := False\<rparr>)) =
        Rejected \<lparr>err_name = ''Error'',
                  err_message = ''Worker execution timed out after '' @ Number_toString h n @ '' ms'',
                  err_stack = captureStack h (''Worker execution timed out after '' @ Number_toString h n @ '' ms''),
                  err_context = Some (className d @ ''/'' @ methodName d)\<rparr>"
      using p n
      by (simp add: timeoutCallback_def Let_def rejectOnce_def cleanup_def emit_def pending_def
          promise_of_def settlements_def new_Error_def template_def)
    then show ?thesis using n t safe by simp
  qed
  have b: "promise_of (deliver h d st (Exit code)) =
              Rejected \<lparr>err_name = ''Error'',
                        err_message = ''Worker stopped with exit code '' @ Number_toString h code,
                        err_stack = captureStack h (''Worker stopped with exit code '' @ Number_toString h code),
                        err_context = None\<rparr>
            \<and> (is_safe_integer code \<longrightarrow> Number_toString h code = decimal code)"
    if u: "\<not> isResolved st" and x: "onExit st" and c: "code \<noteq> 0"
  proof -
    have p: "pending d (st\<lparr>onExit := False\<rparr>)" using reachable_unresolved[OF assms u] by simp
    show ?thesis using x c u safe
      by (simp add: exitHandler_def promise_rejectOnce[OF p] new_Error_def)
  qed
  have c: "promise_of (deliver h d st (Exit 0)) = Pending" if u: "\<not> isResolved st"
  proof -
    have p: "pending d st" using reachable_unresolved[OF assms u] .
    then show ?thesis by (simp add: exitHandler_def pending_def promise_of_def)
  qed
  have e: "actions (deliver h d st (Exit code)) = actions st
          \<and> promise_of (deliver h d st (Exit code)) = promise_of st" if r: "isResolved st"
    using r by (simp add: exitHandler_def promise_of_def)
  show ?thesis using a b c e by blast
qed

theorem synthetic_failures_witness:
  "promise_of (deliver test_host test_decoration (RunInNewThread test_decoration () []) Deadline)
     = Rejected \<lparr>err_name = ''Error'', err_message = ''Worker execution timed out after 100 ms'',
                 err_stack = ''Error: Worker execution timed out after 100 ms'',
                 err_context = Some ''TestService/slowMethod''\<rparr>
   \<and> promise_of (deliver test_host test_decoration (RunInNewThread test_decoration () []) (Exit 1))
     = Rejected \<lparr>err_name = ''Error'', err_message = ''Worker stopped with exit code 1'',
                 err_stack = ''Error: Worker stopped with exit code 1'', err_context = None\<rparr>
   \<and> promise_of (deliver test_host test_decoration (RunInNewThread test_decoration () []) (Exit 0))
     = Pending"
proof -
  let ?st = "RunInNewThread test_decoration () []"
  have e: "?st = run test_host test_decoration ?st []" by simp
  have u: "\<not> isResolved ?st" and t: "timerArmed ?st" and x: "onExit ?st"
    by (simp_all add: test_decoration_def call_defs setTimeout_def)
  have n: "timeout test_decoration = Some 100" "className test_decoration = ''TestService''"
    "methodName test_decoration = ''slowMethod''"
    by (simp_all add: test_decoration_def)
  have c: "captureStack test_host = (\<lambda>m. ''Error: '' @ m)" by (simp add: test_host_def)
  have i: "is_safe_integer 100" "is_safe_integer 1" by (simp_all add: is_safe_integer_def)
  have s: "decimal 100 = ''100''" "decimal 1 = ''1''" by code_simp+
  from synthetic_failures[OF e, of 1] u t x n c i s
  show ?thesis by simp
qed

text \<open>
  C8. The first \<^verbatim>\<open>'error'\<close> event that reaches a call that has not settled rejects
  it. When the name of the reported error is \<^verbatim>\<open>ReferenceError\<close>, the message is logged
  first and the promise is rejected with a new error whose message is
  \<^verbatim>\<open>Reference error in worker: \<close> followed by the message of the reported one; any
  other error rejects the promise as it is.
\<close>

theorem reference_error_wrapped:
  assumes "st = run h d (RunInNewThread d this args) evs"
    and "\<not> isResolved st" and "onError st"
  shows "actions (deliver h d st (WorkerError e)) =
           actions st @
             (if err_name e = ''ReferenceError''
              then [ConsoleError (red h ''Worker reference error: '') (err_message e)]
                   @ cleanup_actions d
                   @ [Reject \<lparr>err_name = ''Error'',
                              err_message = ''Reference error in worker: '' @ err_message e,
                              err_stack = captureStack h (''Reference error in worker: '' @ err_message e),
                              err_context = None\<rparr>]
              else cleanup_actions d @ [Reject e])
       \<and> promise_of (deliver h d st (WorkerError e)) =
           (if err_name e = ''ReferenceError''
            then Rejected \<lparr>err_name = ''Error'',
                           err_message = ''Reference error in worker: '' @ err_message e,
                           err_stack = captureStack h (''Reference error in worker: '' @ err_message e),
                           err_context = None\<rparr>
            else Rejected e)"
proof -
  have p: "pending d (st\<lparr>onError := False\<rparr>)" using reachable_unresolved[OF assms(1,2)] by simp
  then have q: "pending d (emit (ConsoleError (red h ''Worker reference error: '') (err_message e)) (st\<lparr>onError := False\<rparr>))"
    by (rule pending_console)
  show ?thesis using assms(3)
    by (simp add: errorHandler_def promise_rejectOnce[OF p] promise_rejectOnce[OF q]
        rejectOnce_pending(1)[OF p] rejectOnce_pending(1)[OF q] new_Error_def)
qed

theorem reference_error_wrapped_witness:
  "promise_of (deliver test_host test_decoration (RunInNewThread test_decoration () [])
      (WorkerError \<lparr>err_name = ''ReferenceError'', err_message = ''someHelper is not defined'',
                     err_stack = ''ReferenceError: someHelper is not defined'', err_context = None\<rparr>))
     = Rejected \<lparr>err_name = ''Error'',
                 err_message = ''Reference error in worker: someHelper is not defined'',
                 err_stack = ''Error: Reference error in worker: someHelper is not defined'',
                 err_context = None\<rparr>
   \<and> promise_of (deliver test_host test_decoration (RunInNewThread test_decoration () [])
      (WorkerError \<lparr>err_name = ''RangeError'', err_message = ''Maximum call stack size exceeded'',
                     err_stack = ''RangeError: Maximum call stack size exceeded'', err_context = None\<rparr>))
     = Rejected \<lparr>err_name = ''RangeError'', err_message = ''Maximum call stack size exceeded'',
                 err_stack = ''RangeError: Maximum call stack size exceeded'', err_context = None\<rparr>"
proof -
  let ?st = "RunInNewThread test_decoration () []"
  have e: "?st = run test_host test_decoration ?st []" by simp
  have u: "\<not> isResolved ?st" and x: "onError ?st"
    by (simp_all add: test_decoration_def call_defs setTimeout_def)
  have c: "captureStack test_host = (\<lambda>m. ''Error: '' @ m)" by (simp add: test_host_def)
  from reference_error_wrapped[OF e u x,
      of "\<lparr>err_name = ''ReferenceError'', err_message = ''someHelper is not defined'',
            err_stack = ''ReferenceError: someHelper is not defined'', err_context = None\<rparr>"]
    reference_error_wrapped[OF e u x,
      of "\<lparr>err_name = ''RangeError'', err_message = ''Maximum call stack size exceeded'',
            err_stack = ''RangeError: Maximum call stack size exceeded'', err_context = None\<rparr>"]
    c
  show ?thesis by simp
qed

text \<open>
  C10. A timeout of 0 is an absent timeout: the executor leaves the same state, every run
  of events ends in the state it ends in without a timeout, no timer is ever created or
  armed, the host never runs the timer's callback (the only place where the timeout error
  is made), and the deadlines among the events can be left out without changing anything.
\<close>

theorem zero_timeout_is_no_timeout:
  assumes "timeout d = Some 0" and "st = run h d (RunInNewThread d this args) evs"
  shows "RunInNewThread d this args = RunInNewThread (d\<lparr>timeout := None\<rparr>) this args
    \<and> st = run h (d\<lparr>timeout := None\<rparr>) (RunInNewThread (d\<lparr>timeout := None\<rparr>) this args) evs
    \<and> \<not> timerArmed st \<and> timeoutId st = None \<and> (\<forall>n. SetTimeout n \<notin> set (actions st))
    \<and> deliver h d st Deadline = st
    \<and> st = run h d (RunInNewThread d this args) (filter (\<lambda>ev. ev \<noteq> Deadline) evs)"
proof -
  have nt: "\<not> truthy (timeout d)" using assms(1) by (simp add: truthy_def)
  have s: "RunInNewThread d this args = RunInNewThread (d\<lparr>timeout := None\<rparr>) this args"
    using assms(1) by (simp add: RunInNewThread_def setTimeout_def truthy_def)
  have t0: "timerless (RunInNewThread d this args)" using nt by (rule timerless_start)
  have t: "timerless st" using assms(2) timerless_run[OF t0] by simp
  have e: "st = run h (d\<lparr>timeout := None\<rparr>) (RunInNewThread (d\<lparr>timeout := None\<rparr>) this args) evs"
    using assms(2) timerless_run_any[OF t0, of h d evs "d\<lparr>timeout := None\<rparr>"] s by simp
  have f: "st = run h d (RunInNewThread d this args) (filter (\<lambda>ev. ev \<noteq> Deadline) evs)"
    using assms(2) timerless_run_filter[OF t0, of h d evs] by simp
  have g: "deliver h d st Deadline = st" using t by (rule timerless_deadline)
  have u: "\<not> timerArmed st \<and> timeoutId st = None \<and> (\<forall>n. SetTimeout n \<notin> set (actions st))"
    using t by (simp add: timerless_def)
  show ?thesis using s e f g u by - (elim conjE, intro conjI, assumption+)
qed

theorem zero_timeout_is_no_timeout_witness:
  "RunInNewThread (test_decoration\<lparr>timeout := Some 0\<rparr>) () []
     = RunInNewThread (test_decoration\<lparr>timeout := None\<rparr>) () []
   \<and> promise_of (run test_host (test_decoration\<lparr>timeout := Some 0\<rparr>)
        (RunInNewThread (test_decoration\<lparr>timeout := Some 0\<rparr>) () []) [Deadline, Deadline]) = Pending
   \<and> \<not> timerArmed (run test_host (test_decoration\<lparr>timeout := Some 0\<rparr>)
        (RunInNewThread (test_decoration\<lparr>timeout := Some 0\<rparr>) () []) [Deadline, Deadline])"
proof -
  let ?d = "test_decoration\<lparr>timeout := Some 0\<rparr>"
  let ?st = "run test_host ?d (RunInNewThread ?d () []) [Deadline, Deadline]"
  have z: "timeout ?d = Some 0" by simp
  have p: "promise_of (RunInNewThread ?d () []) = Pending"
    by (simp add: promise_of_def settlements_def call_defs)
  have flt: "filter (\<lambda>ev. ev \<noteq> Deadline) [Deadline, Deadline] = []" by simp
  note t = zero_timeout_is_no_timeout[OF z refl, where h = test_host and this = "()" and args = "[]"
      and evs = "[Deadline, Deadline]"]
  from t have 1: "RunInNewThread ?d () [] = RunInNewThread (?d\<lparr>timeout := None\<rparr>) () []"
    and 2: "\<not> timerArmed ?st"
    and 3: "?st = run test_host ?d (RunInNewThread ?d () [])
              (filter (\<lambda>ev. ev \<noteq> Deadline) [Deadline, Deadline])"
    by blast+
  have 4: "?st = RunInNewThread ?d () []" using 3 unfolding flt run_Nil .
  have 5: "promise_of ?st = Pending" using p by (simp only: 4)
  have 6: "RunInNewThread ?d () [] = RunInNewThread (test_decoration\<lparr>timeout := None\<rparr>) () []"
    using 1 by simp
  show ?thesis using 6 5 2 by blast
qed

subsection \<open>The worker\<close>

text \<open>
  C9. The wrapper is called on an instance, and nothing of the instance reaches the
  worker: the state the executor leaves is the same for any two instances (of any types),
  and the one message posted in the whole life of the call is the pair of the method's
  text and the arguments. The worker invokes the callable it reconstructs from that text
  with the empty object as \<^verbatim>\<open>this\<close> and with those arguments: whatever the interpreter
  returns as a function \<open>f\<close> of text, \<^verbatim>\<open>this\<close> and arguments, the worker of the call
  posts the success of \<open>f\<close> at the normalized text, the empty object and the arguments, and
  two worker hosts that agree there leave the same result, whatever they would do under
  another binding.
\<close>

theorem instance_never_reaches_worker:
  "RunInNewThread d this1 args = RunInNewThread d this2 args
   \<and> posted (run h d (RunInNewThread d this1 args) evs) = [(fnCode d, args)]
   \<and> ((\<forall>text this xs. invoke h text this xs = Returned (f text this xs)) \<longrightarrow>
        worker h (posted (run h' d (RunInNewThread d this1 args) evs))
          = [Posted (Success (f (toFunctionExpression (fnCode d)) (JObj []) args))]
      \<and> worker h (posted (run h' d (RunInNewThread d this2 args) evs'))
          = [Posted (Success (f (toFunctionExpression (fnCode d)) (JObj []) args))])
   \<and> (invoke h (toFunctionExpression (fnCode d)) (JObj []) args
         = invoke h' (toFunctionExpression (fnCode d)) (JObj []) args
       \<longrightarrow> worker h (posted (run h d (RunInNewThread d this1 args) evs))
           = worker h' (posted (run h' d (RunInNewThread d this2 args) evs')))"
proof -
  have 1: "RunInNewThread d this1 args = RunInNewThread d this2 args"
    by (simp add: RunInNewThread_def)
  have 2: "posted (run k d (RunInNewThread d x args) es) = [(fnCode d, args)]" for k x es
    by (simp add: posted_run posted_start)
  show ?thesis using 1 by (simp add: 2 worker_def)
qed

theorem instance_never_reaches_worker_witness:
  "RunInNewThread (test_decoration\<lparr>fnCode := ''add(a, b) { return a + b }''\<rparr>) (JObj [(''secret'', JNum 1)]) [JNum 5, JNum 10]
     = RunInNewThread (test_decoration\<lparr>fnCode := ''add(a, b) { return a + b }''\<rparr>) (JObj [(''secret'', JNum 2)]) [JNum 5, JNum 10]
   \<and> worker (test_host\<lparr>invoke := (\<lambda>text this xs. Returned this)\<rparr>)
        (posted (RunInNewThread (test_decoration\<lparr>fnCode := ''add(a, b) { return a + b }''\<rparr>) (JObj [(''secret'', JNum 1)]) [JNum 5, JNum 10]))
     = [Posted (Success (JObj []))]
   \<and> worker (test_host\<lparr>invoke := (\<lambda>text this xs. Returned (JArr [JStr text, this, JArr xs]))\<rparr>)
        (posted (RunInNewThread (test_decoration\<lparr>fnCode := ''add(a, b) { return a + b }''\<rparr>) (JObj [(''secret'', JNum 2)]) [JNum 5, JNum 10]))
     = [Posted (Success (JArr [JStr ''function(a, b) { return a + b }'', JObj [], JArr [JNum 5, JNum 10]]))]"
proof -
  let ?d = "test_decoration\<lparr>fnCode := ''add(a, b) { return a + b }''\<rparr>"
  let ?h1 = "test_host\<lparr>invoke := (\<lambda>text this xs. Returned this)\<rparr>"
  let ?h2 = "test_host\<lparr>invoke := (\<lambda>text this xs. Returned (JArr [JStr text, this, JArr xs]))\<rparr>"
  have e: "run k ?d st [] = st" for k st by simp
  have c: "fnCode ?d = ''add(a, b) { return a + b }''" by simp
  have p1: "\<forall>text this xs. invoke ?h1 text this xs = Returned ((\<lambda>text this xs. this) text this xs)"
    by simp
  have p2: "\<forall>text this xs. invoke ?h2 text this xs
      = Returned ((\<lambda>text this xs. JArr [JStr text, this, JArr xs]) text this xs)"
    by simp
  note t1 = instance_never_reaches_worker[where d = ?d and ?this1.0 = "JObj [(''secret'', JNum 1)]"
      and ?this2.0 = "JObj [(''secret'', JNum 2)]" and args = "[JNum 5, JNum 10]"
      and h = ?h1 and h' = ?h1 and evs = "[]" and evs' = "[]" and f = "\<lambda>text this xs. this"]
  note t2 = instance_never_reaches_worker[where d = ?d and ?this1.0 = "JObj [(''secret'', JNum 1)]"
      and ?this2.0 = "JObj [(''secret'', JNum 2)]" and args = "[JNum 5, JNum 10]"
      and h = ?h2 and h' = ?h2 and evs = "[]" and evs' = "[]"
      and f = "\<lambda>text this xs. JArr [JStr text, this, JArr xs]"]
  from t1 have 1: "RunInNewThread ?d (JObj [(''secret'', JNum 1)]) [JNum 5, JNum 10]
      = RunInNewThread ?d (JObj [(''secret'', JNum 2)]) [JNum 5, JNum 10]"
    by blast
  from t1 p1 have 2: "worker ?h1 (posted (RunInNewThread ?d (JObj [(''secret'', JNum 1)]) [JNum 5, JNum 10]))
      = [Posted (Success (JObj []))]"
    unfolding e by blast
  from t2 p2 have "worker ?h2 (posted (RunInNewThread ?d (JObj [(''secret'', JNum 2)]) [JNum 5, JNum 10]))
      = [Posted (Success (JArr [JStr (toFunctionExpression (fnCode ?d)), JObj [], JArr [JNum 5, JNum 10]]))]"
    unfolding e by blast
  then have 3: "worker ?h2 (posted (RunInNewThread ?d (JObj [(''secret'', JNum 2)]) [JNum 5, JNum 10]))
      = [Posted (Success (JArr [JStr ''function(a, b) { return a + b }'', JObj [], JArr [JNum 5, JNum 10]]))]"
    unfolding c normalize_add .
  show ?thesis using 1 2 3 by blast
qed




text \<open>
  What the amended statement leaves out: of a caught \<^verbatim>\<open>null\<close> or \<^verbatim>\<open>undefined\<close> the
  catch block cannot read \<^verbatim>\<open>error.message\<close>; it throws in its turn and the task is
  not answered.
\<close>

lemma nullish_throw_not_answered:
  assumes "invoke h (toFunctionExpression code) (JObj []) args = Threw (Value JNull)
         \<or> invoke h (toFunctionExpression code) (JObj []) args = Threw (Value JUndefined)"
  shows "workerHandler h (code, args) = Failed" and "emitted (worker h [(code, args)]) = []"
  using assms by (auto simp: worker_def emitted_def)

lemma throw_null_not_answered:
  "emitted (worker test_host [(''fail() { throw null }'', [])]) = []"
  by (rule nullish_throw_not_answered(2)) (simp add: normalize_throw_null test_host_def)

subsection \<open>The normalizer\<close>

text \<open>
  C6. The text of a class method, that is an identifier other than \<^verbatim>\<open>function\<close> as the
  name, preceded by nothing or by \<^verbatim>\<open>async\<close> and white space, followed (after any white
  space) by the parameter list and the body up to the closing brace, is rewritten to
  \<^verbatim>\<open>function\<close> followed by the text from its first \<^verbatim>\<open>(\<close> on, which is where the
  parameter list starts; \<^verbatim>\<open>async \<close> is put in front exactly when the text starts with
  \<^verbatim>\<open>async \<close> (with a space), which it does when the qualifier is written that way and
  does not when there is no qualifier and the method is not called \<^verbatim>\<open>async\<close>.
\<close>

theorem class_method_rewritten:
  assumes "is_identifier name" and "name \<noteq> ''function''"
    and "\<forall>c \<in> set sp. is_space c"
    and "pre = [] \<or> (\<exists>ws. ws \<noteq> [] \<and> (\<forall>c \<in> set ws. is_space c) \<and> pre = ''async'' @ ws)"
    and "code = pre @ name @ sp @ ''('' @ rest @ ''}''"
  shows "toFunctionExpression code =
           (if startsWith code ''async '' then ''async function'' else ''function'') @ ''('' @ rest @ ''}''
       \<and> indexOf code CHR ''('' = Some (length (pre @ name @ sp))
       \<and> (pre = ''async '' \<longrightarrow> toFunctionExpression code = ''async function('' @ rest @ ''}'')
       \<and> (pre = [] \<and> name \<noteq> ''async'' \<longrightarrow> toFunctionExpression code = ''function('' @ rest @ ''}'')"
proof -
  note ip = identifier_parts[OF assms(1)]
  have code: "code = pre @ name @ sp @ CHR ''('' # (rest @ ''}'')" using assms(5) by simp
  have hd: "hd code = hd name \<or> hd code = CHR ''a''" using assms(4) ip(1) code by auto
  have "code \<noteq> []" "\<not> is_space (hd code)" "\<not> is_space (last code)"
    using hd ident_part_not(1)[OF ident_start_part[OF ip(2)]] assms(5)
    by (auto simp: is_space_def)
  then have t: "trim code = code" by (rule trim_id)
  have nf: "\<not> rx_test rx_function code"
    unfolding code by (rule method_not_function[OF assms(1,2,3,4)])
  have na: "\<not> rx_test rx_arrow code"
    unfolding code by (rule method_not_arrow[OF assms(1,3,4)])
  have "CHR ''('' \<notin> set pre"
    using assms(4) paren_not(3) by auto
  then have "CHR ''('' \<notin> set (pre @ name @ sp)"
    using assms(3) ip(3) ident_part_not(2) space_not(3) by (auto simp: list_all_iff)
  then have "indexOf ((pre @ name @ sp) @ CHR ''('' # (rest @ ''}'')) CHR ''('' = Some (length (pre @ name @ sp))"
    by (rule indexOf_first)
  then have i: "indexOf code CHR ''('' = Some (length (pre @ name @ sp))" using code by simp
  have d: "drop (length (pre @ name @ sp)) code = ''('' @ rest @ ''}''" using code by simp
  have main: "toFunctionExpression code =
           (if startsWith code ''async '' then ''async function'' else ''function'') @ ''('' @ rest @ ''}''"
    using t nf na i d by (simp add: toFunctionExpression_def slice_def Let_def)
  have a1: "startsWith code ''async ''" if "pre = ''async ''"
    using that code by (simp add: startsWith_def)
  have a2: "\<not> startsWith code ''async ''" if p: "pre = []" and nn: "name \<noteq> ''async''"
  proof
    assume "startsWith code ''async ''"
    then obtain u where "code = ''async '' @ u" unfolding startsWith_append by blast
    then have u: "code = ''async'' @ '' '' @ u" by simp
    have "takeWhile is_ident_part code = name"
      using name_token[OF ip(3) assms(3)] code p by simp
    moreover have "takeWhile is_ident_part code = ''async''"
      by (subst u, rule async_token) (simp_all add: is_space_def)
    ultimately show False using nn by simp
  qed
  show ?thesis using main i a1 a2 by simp
qed

theorem class_method_rewritten_witness:
  "toFunctionExpression ''async heavyComputation(iterations) { return iterations }''
     = ''async function(iterations) { return iterations }''
   \<and> toFunctionExpression ''add (a, b) { return a + b }'' = ''function(a, b) { return a + b }''
   \<and> toFunctionExpression (''async'' @ [CHR 0x09] @ ''run() { }'') = ''function() { }''"
proof -
  have i: "is_identifier ''heavyComputation''" "is_identifier ''add''" "is_identifier ''run''"
    by (simp_all add: is_identifier_def is_ident_start_def is_ident_part_def is_word_def in_range_def)
  have s: "\<forall>c \<in> set []. is_space c" "\<forall>c \<in> set '' ''. is_space c"
    by (simp_all add: is_space_def)
  have a: "\<exists>ws. ws \<noteq> [] \<and> (\<forall>c \<in> set ws. is_space c) \<and> ''async '' = ''async'' @ ws"
    using s(2) by (intro exI[of _ "'' ''"]) simp
  have "''async '' = ''async '' \<longrightarrow>
      toFunctionExpression ''async heavyComputation(iterations) { return iterations }''
        = ''async function('' @ ''iterations) { return iterations '' @ ''}''"
    using a class_method_rewritten[OF i(1) _ s(1), where pre = "''async ''"
        and code = "''async heavyComputation(iterations) { return iterations }''"
        and rest = "''iterations) { return iterations ''"]
    by fastforce
  then have 1: "toFunctionExpression ''async heavyComputation(iterations) { return iterations }''
     = ''async function(iterations) { return iterations }''"
    by simp
  have "[] = [] \<and> ''add'' \<noteq> ''async'' \<longrightarrow>
      toFunctionExpression ''add (a, b) { return a + b }''
        = ''function('' @ ''a, b) { return a + b '' @ ''}''"
    using class_method_rewritten[OF i(2) _ s(2), where pre = "[]"
        and code = "''add (a, b) { return a + b }''" and rest = "''a, b) { return a + b ''"]
    by fastforce
  then have 2: "toFunctionExpression ''add (a, b) { return a + b }'' = ''function(a, b) { return a + b }''"
    by simp
  have t: "\<exists>ws. ws \<noteq> [] \<and> (\<forall>c \<in> set ws. is_space c) \<and> ''async'' @ [CHR 0x09] = ''async'' @ ws"
    by (intro exI[of _ "[CHR 0x09]"]) (simp add: is_space_def)
  have n: "\<not> startsWith (''async'' @ [CHR 0x09] @ ''run() { }'') ''async ''"
    by (simp add: startsWith_def)
  have "toFunctionExpression (''async'' @ [CHR 0x09] @ ''run() { }'')
      = (if startsWith (''async'' @ [CHR 0x09] @ ''run() { }'') ''async ''
         then ''async function'' else ''function'') @ ''('' @ '') { '' @ ''}''"
    using t class_method_rewritten[OF i(3) _ s(1), where pre = "''async'' @ [CHR 0x09]"
        and code = "''async'' @ [CHR 0x09] @ ''run() { }''" and rest = "'') { ''"]
    by fastforce
  then have 3: "toFunctionExpression (''async'' @ [CHR 0x09] @ ''run() { }'') = ''function() { }''"
    using n by simp
  show ?thesis using 1 2 3 by blast
qed

text \<open>
  C7 fails on the code: the text of an async arrow function is already a callable on its
  own, and the normalizer rewrites it into text that is no function at all.
\<close>

theorem async_arrow_rewritten:
  "toFunctionExpression ''async (x) => x * 2'' = ''async function(x) => x * 2''"
  by (rule normalize_async_arrow)

end
